theory Spec2Isabelle
  imports Main "HOL-Library.Word" "HOL-Library.Sublist" "HOL-Library.Code_Target_Nat"
begin

section \<open>Text as sequences of Unicode code points\<close>

text \<open>
  The program is Python 3: a \<^verbatim>\<open>str\<close> is a sequence of Unicode code points, and
  \<^verbatim>\<open>re\<close>, \<^verbatim>\<open>str.strip\<close>, \<^verbatim>\<open>str.split\<close> and \<^verbatim>\<open>len\<close> all count code points.
  A character is therefore modelled as the natural number of its code point and a string
  as a list of them. Literals of the source are written as lists of hexadecimal code
  points.
\<close>

type_synonym uchar = nat
type_synonym ustr = "uchar list"

text \<open>A set of characters, written as a list of inclusive code point ranges.\<close>

type_synonym cset = "(nat \<times> nat) list"

definition in_ranges :: "uchar \<Rightarrow> cset \<Rightarrow> bool" where
  "in_ranges c rs = list_ex (\<lambda>(lo, hi). lo \<le> c \<and> c \<le> hi) rs"

text \<open>
  The characters for which \<^verbatim>\<open>str.isspace\<close> holds. For a \<^verbatim>\<open>str\<close> pattern the
  class \<^verbatim>\<open>\s\<close> of \<^verbatim>\<open>re\<close> is the same set, and \<^verbatim>\<open>strip\<close>, \<^verbatim>\<open>rstrip\<close> without
  argument remove exactly these characters.
\<close>

definition ws_ranges :: cset where
  "ws_ranges = [(0x09, 0x0D), (0x1C, 0x20), (0x85, 0x85), (0xA0, 0xA0), (0x1680, 0x1680),
     (0x2000, 0x200A), (0x2028, 0x2029), (0x202F, 0x202F), (0x205F, 0x205F), (0x3000, 0x3000)]"

text \<open>
  The decimal digits (general category Nd, Unicode 14.0 as shipped with CPython 3.11):
  the class \<^verbatim>\<open>\d\<close> of a \<^verbatim>\<open>str\<close> pattern. Every range is a run of the digits
  0 to 9 in order (the last but four holds five such runs), so the value of a digit is its
  offset in the range modulo 10.
\<close>

definition digit_ranges :: cset where
  "digit_ranges = [(0x30, 0x39), (0x660, 0x669), (0x6F0, 0x6F9), (0x7C0, 0x7C9), (0x966, 0x96F),
     (0x9E6, 0x9EF), (0xA66, 0xA6F), (0xAE6, 0xAEF), (0xB66, 0xB6F), (0xBE6, 0xBEF),
     (0xC66, 0xC6F), (0xCE6, 0xCEF), (0xD66, 0xD6F), (0xDE6, 0xDEF), (0xE50, 0xE59),
     (0xED0, 0xED9), (0xF20, 0xF29), (0x1040, 0x1049), (0x1090, 0x1099), (0x17E0, 0x17E9),
     (0x1810, 0x1819), (0x1946, 0x194F), (0x19D0, 0x19D9), (0x1A80, 0x1A89), (0x1A90, 0x1A99),
     (0x1B50, 0x1B59), (0x1BB0, 0x1BB9), (0x1C40, 0x1C49), (0x1C50, 0x1C59), (0xA620, 0xA629),
     (0xA8D0, 0xA8D9), (0xA900, 0xA909), (0xA9D0, 0xA9D9), (0xA9F0, 0xA9F9), (0xAA50, 0xAA59),
     (0xABF0, 0xABF9), (0xFF10, 0xFF19), (0x104A0, 0x104A9), (0x10D30, 0x10D39),
     (0x11066, 0x1106F), (0x110F0, 0x110F9), (0x11136, 0x1113F), (0x111D0, 0x111D9),
     (0x112F0, 0x112F9), (0x11450, 0x11459), (0x114D0, 0x114D9), (0x11650, 0x11659),
     (0x116C0, 0x116C9), (0x11730, 0x11739), (0x118E0, 0x118E9), (0x11950, 0x11959),
     (0x11C50, 0x11C59), (0x11D50, 0x11D59), (0x11DA0, 0x11DA9), (0x16A60, 0x16A69),
     (0x16AC0, 0x16AC9), (0x16B50, 0x16B59), (0x1D7CE, 0x1D7FF), (0x1E140, 0x1E149),
     (0x1E2F0, 0x1E2F9), (0x1E950, 0x1E959), (0x1FBF0, 0x1FBF9)]"

definition is_space :: "uchar \<Rightarrow> bool" where
  "is_space c = in_ranges c ws_ranges"

definition is_digit :: "uchar \<Rightarrow> bool" where
  "is_digit c = in_ranges c digit_ranges"

subsection \<open>The string methods the program uses\<close>

definition lstrip :: "ustr \<Rightarrow> ustr" where
  "lstrip s = dropWhile is_space s"

definition rstrip :: "ustr \<Rightarrow> ustr" where
  "rstrip s = rev (dropWhile is_space (rev s))"

definition strip :: "ustr \<Rightarrow> ustr" where
  "strip s = rstrip (lstrip s)"

text \<open>
  \<^verbatim>\<open>s.split(sep)\<close> for a one-character separator. The result is never the empty
  list, so the first branch of the \<open>case\<close> is never taken.
\<close>

fun split_on :: "uchar \<Rightarrow> ustr \<Rightarrow> ustr list" where
  "split_on sep [] = [[]]"
| "split_on sep (c # cs) =
     (if c = sep then [] # split_on sep cs
      else (case split_on sep cs of [] \<Rightarrow> [[c]] | l # ls \<Rightarrow> (c # l) # ls))"

fun join :: "ustr \<Rightarrow> ustr list \<Rightarrow> ustr" where
  "join sep [] = []"
| "join sep [x] = x"
| "join sep (x # y # ys) = x @ sep @ join sep (y # ys)"

text \<open>The slice \<^verbatim>\<open>s[i:j]\<close> for \<open>0 \<le> i\<close>, \<open>0 \<le> j\<close>.\<close>

definition py_slice :: "ustr \<Rightarrow> nat \<Rightarrow> nat \<Rightarrow> ustr" where
  "py_slice s i j = take (j - i) (drop i s)"

section \<open>The regular expressions of the \<^verbatim>\<open>re\<close> module\<close>

text \<open>
  The fragment of the pattern language that the program uses. Every repetition in the
  source (\<^verbatim>\<open>\s*\<close>, \<^verbatim>\<open>\d+\<close>, \<^verbatim>\<open>.+\<close>, \<^verbatim>\<open>\n{3,}\<close>, \<^verbatim>\<open>\d{1,2}\<close>, \<^verbatim>\<open>[...]+\<close>) repeats a
  single character class and is greedy, so \<open>Rep\<close> takes a class, a minimum and an
  optional maximum. \<open>Bol\<close> and \<open>Eol\<close> are \<^verbatim>\<open>^\<close> and \<^verbatim>\<open>$\<close>, \<open>BolM\<close> and \<open>EolM\<close> the
  same under the flag \<^verbatim>\<open>(?m)\<close>; \<open>NLook\<close> is the negative lookahead \<^verbatim>\<open>(?!...)\<close> and
  \<open>Grp n\<close> the capturing group number \<open>n\<close>.
\<close>

datatype cls = In cset | NotIn cset

fun in_cls :: "uchar \<Rightarrow> cls \<Rightarrow> bool" where
  "in_cls c (In rs) = in_ranges c rs"
| "in_cls c (NotIn rs) = (\<not> in_ranges c rs)"

datatype regex =
    Eps
  | Chr cls
  | Rep cls nat "nat option"
  | Seq regex regex
  | Alt regex regex
  | Bol
  | BolM
  | Eol
  | EolM
  | NLook regex
  | Grp nat regex

text \<open>
  A state of the matcher: the text before the current position (reversed), the text from
  the current position on, and the groups captured so far.
\<close>

datatype mstate = MState (before: ustr) (rest: ustr) (groups: "(nat \<times> ustr) list")

text \<open>
  All states in which a greedy repetition of the class can stop, the shortest first: after
  0, 1, 2, ... characters of the class, at most \<open>hi\<close> of them.
\<close>

fun reps :: "cls \<Rightarrow> nat option \<Rightarrow> ustr \<Rightarrow> ustr \<Rightarrow> (ustr \<times> ustr) list" where
  "reps k hi p [] = [(p, [])]"
| "reps k hi p (c # cs) =
     (p, c # cs) #
     (if in_cls c k \<and> hi \<noteq> Some 0 then reps k (map_option (\<lambda>n. n - 1) hi) (c # p) cs
      else [])"

text \<open>
  The backtracking matcher: \<open>rmatch r st\<close> lists the states in which a match of \<open>r\<close> that
  starts in \<open>st\<close> can end, in the order in which the engine tries them (the longest
  repetition first, the left alternative first). The engine's answer is the head.
\<close>

fun rmatch :: "regex \<Rightarrow> mstate \<Rightarrow> mstate list" where
  "rmatch Eps st = [st]"
| "rmatch (Chr k) st =
     (case rest st of
        [] \<Rightarrow> []
      | c # cs \<Rightarrow> if in_cls c k then [MState (c # before st) cs (groups st)] else [])"
| "rmatch (Rep k lo hi) st =
     map (\<lambda>(p, s). MState p s (groups st)) (rev (drop lo (reps k hi (before st) (rest st))))"
| "rmatch (Seq r1 r2) st = concat (map (rmatch r2) (rmatch r1 st))"
| "rmatch (Alt r1 r2) st = rmatch r1 st @ rmatch r2 st"
| "rmatch Bol st = (if before st = [] then [st] else [])"
| "rmatch BolM st = (if before st = [] \<or> hd (before st) = 0x0A then [st] else [])"
| "rmatch Eol st = (if rest st = [] \<or> rest st = [0x0A] then [st] else [])"
| "rmatch EolM st = (if rest st = [] \<or> hd (rest st) = 0x0A then [st] else [])"
| "rmatch (NLook r) st = (if rmatch r st = [] then [st] else [])"
| "rmatch (Grp n r) st =
     map (\<lambda>e. MState (before e) (rest e)
                 ((n, take (length (rest st) - length (rest e)) (rest st)) # groups e))
         (rmatch r st)"

fun seqs :: "regex list \<Rightarrow> regex" where
  "seqs [] = Eps"
| "seqs [r] = r"
| "seqs (r # rs) = Seq r (seqs rs)"

fun alts :: "regex list \<Rightarrow> regex" where
  "alts [] = NLook Eps"
| "alts [r] = r"
| "alts (r # rs) = Alt r (alts rs)"

definition Lit :: "ustr \<Rightarrow> regex" where
  "Lit s = seqs (map (\<lambda>c. Chr (In [(c, c)])) s)"

definition Opt :: "regex \<Rightarrow> regex" where
  "Opt r = Alt r Eps"

subsection \<open>Match objects and the search loop\<close>

datatype rematch = ReMatch (m_start: nat) (m_end: nat) (m_groups: "(nat \<times> ustr) list")

text \<open>\<^verbatim>\<open>m.group(n)\<close>: \<open>None\<close> when the group took no part in the match.\<close>

definition m_group :: "rematch \<Rightarrow> nat \<Rightarrow> ustr option" where
  "m_group m n = map_of (m_groups m) n"

text \<open>
  One attempt at one position. When the previous match was empty the engine refuses an
  empty match at the position where it resumes (\<open>must_advance\<close>) and backtracks to the
  first non-empty one.
\<close>

definition match_here :: "regex \<Rightarrow> bool \<Rightarrow> ustr \<Rightarrow> ustr \<Rightarrow> mstate option" where
  "match_here r must_advance p s =
     (case filter (\<lambda>e. \<not> must_advance \<or> length (rest e) \<noteq> length s) (rmatch r (MState p s []))
      of [] \<Rightarrow> None | e # _ \<Rightarrow> Some e)"

text \<open>The leftmost position, from the current one to the end of the text, with a match.\<close>

fun search :: "regex \<Rightarrow> bool \<Rightarrow> ustr \<Rightarrow> ustr \<Rightarrow> (nat \<times> mstate) option" where
  "search r adv p [] = map_option (Pair (length p)) (match_here r adv p [])"
| "search r adv p (c # cs) =
     (case match_here r adv p (c # cs) of
        Some e \<Rightarrow> Some (length p, e)
      | None \<Rightarrow> search r False (c # p) cs)"

text \<open>A match never moves backwards and never changes the text.\<close>

lemma reps_consumes:
  "(p', s') \<in> set (reps k hi p s) \<Longrightarrow> rev p' @ s' = rev p @ s \<and> length s' \<le> length s"
  by (induction k hi p s rule: reps.induct) (auto split: if_splits)

lemma rmatch_consumes:
  "e \<in> set (rmatch r st) \<Longrightarrow>
     rev (before e) @ rest e = rev (before st) @ rest st \<and> length (rest e) \<le> length (rest st)"
proof (induction r arbitrary: st e)
  case (Rep k lo hi)
  then show ?case by (auto dest!: in_set_dropD reps_consumes)
next
  case (Chr k)
  then show ?case by (cases st) (auto split: list.splits if_splits)
next
  case (Seq r1 r2)
  then show ?case by fastforce
qed (auto split: if_splits)

lemma match_here_consumes:
  assumes "match_here r adv p s = Some e"
  shows "rev (before e) @ rest e = rev p @ s" and "length (rest e) \<le> length s"
    and "adv \<Longrightarrow> length (rest e) < length s"
proof -
  let ?xs = "filter (\<lambda>e. \<not> adv \<or> length (rest e) \<noteq> length s) (rmatch r (MState p s []))"
  from assms obtain ys where "?xs = e # ys"
    by (auto simp: match_here_def split: list.splits)
  then have "e \<in> set ?xs" by simp
  then have m: "e \<in> set (rmatch r (MState p s []))" and n: "\<not> adv \<or> length (rest e) \<noteq> length s"
    by auto
  from rmatch_consumes [OF m] n
  show "rev (before e) @ rest e = rev p @ s" and "length (rest e) \<le> length s"
    and "adv \<Longrightarrow> length (rest e) < length s"
    by auto
qed

lemma search_consumes:
  "search r adv p s = Some (b, e) \<Longrightarrow>
     rev (before e) @ rest e = rev p @ s \<and> length p \<le> b \<and> b \<le> length (before e)
     \<and> length (rest e) + (b - length p) \<le> length s
     \<and> (adv \<longrightarrow> length (rest e) < length s)"
proof (induction r adv p s rule: search.induct)
  case (1 r adv p)
  then obtain e' where m: "match_here r adv p [] = Some e'" and eq: "b = length p" "e = e'"
    by auto
  from match_here_consumes [OF m] eq show ?case by auto
next
  case (2 r adv p c cs)
  show ?case
  proof (cases "match_here r adv p (c # cs)")
    case None
    with 2 have "search r False (c # p) cs = Some (b, e)" by simp
    with 2(1) [OF None] show ?thesis by auto
  next
    case (Some e')
    with 2 have eq: "e' = e" "b = length p" by auto
    from match_here_consumes [OF Some] have
      a: "rev (before e') @ rest e' = rev p @ (c # cs)" and b: "length (rest e') \<le> length (c # cs)"
      and c: "adv \<Longrightarrow> length (rest e') < length (c # cs)" by auto
    from a have "length (before e') + length (rest e') = length p + length (c # cs)"
      by (metis length_append length_rev)
    with a b c eq show ?thesis by auto
  qed
qed


text \<open>
  The loop shared by \<^verbatim>\<open>finditer\<close>, \<^verbatim>\<open>sub\<close> and \<^verbatim>\<open>split\<close>: search from the end of
  the previous match; after an empty match the next one must advance.
\<close>

function scan :: "regex \<Rightarrow> bool \<Rightarrow> ustr \<Rightarrow> ustr \<Rightarrow> rematch list" where
  "scan r adv p s =
     (case search r adv p s of
        None \<Rightarrow> []
      | Some (b, e) \<Rightarrow>
          ReMatch b (length (before e)) (groups e)
          # scan r (length (before e) = b) (before e) (rest e))"
  by pat_completeness auto
termination
proof (relation "measure (\<lambda>(r, adv, p, s). 2 * length s + (if adv then 0 else 1))", goal_cases)
  case 1
  show ?case by simp
next
  case (2 r adv p s x b e)
  then have "search r adv p s = Some (b, e)" by simp
  from search_consumes [OF this] have
    a: "rev (before e) @ rest e = rev p @ s" and b: "length p \<le> b" and c: "b \<le> length (before e)"
    and d: "length (rest e) + (b - length p) \<le> length s"
    and e: "adv \<longrightarrow> length (rest e) < length s" by auto
  from a have f: "length (before e) + length (rest e) = length p + length s"
    by (metis length_append length_rev)
  show ?case
  proof (cases "length (before e) = b")
    case True
    with b c d e f show ?thesis by (cases adv) auto
  next
    case False
    with b c d e f show ?thesis by (cases adv) auto
  qed
qed

declare scan.simps [simp del]

definition finditer :: "regex \<Rightarrow> ustr \<Rightarrow> rematch list" where
  "finditer r text = scan r False [] text"

text \<open>\<^verbatim>\<open>pattern.match(text)\<close> and \<^verbatim>\<open>re.search(pattern, text)\<close>.\<close>

definition re_match :: "regex \<Rightarrow> ustr \<Rightarrow> rematch option" where
  "re_match r text =
     map_option (\<lambda>e. ReMatch 0 (length (before e)) (groups e)) (match_here r False [] text)"

definition re_search :: "regex \<Rightarrow> ustr \<Rightarrow> rematch option" where
  "re_search r text =
     map_option (\<lambda>(b, e). ReMatch b (length (before e)) (groups e)) (search r False [] text)"

text \<open>
  \<^verbatim>\<open>re.sub(pattern, repl, text, count)\<close> for a replacement without group references
  (all replacements of the program are such), \<open>count = 0\<close> meaning all matches.
\<close>

fun sub_build :: "ustr \<Rightarrow> rematch list \<Rightarrow> nat \<Rightarrow> ustr \<Rightarrow> ustr" where
  "sub_build repl [] i text = drop i text"
| "sub_build repl (m # ms) i text =
     py_slice text i (m_start m) @ repl @ sub_build repl ms (m_end m) text"

definition limit :: "nat \<Rightarrow> 'a list \<Rightarrow> 'a list" where
  "limit count ms = (if count = 0 then ms else take count ms)"

definition re_sub :: "regex \<Rightarrow> ustr \<Rightarrow> nat \<Rightarrow> ustr \<Rightarrow> ustr" where
  "re_sub r repl count text = sub_build repl (limit count (finditer r text)) 0 text"

text \<open>\<^verbatim>\<open>re.split(pattern, text, maxsplit)\<close> for a pattern without groups.\<close>

fun split_build :: "rematch list \<Rightarrow> nat \<Rightarrow> ustr \<Rightarrow> ustr list" where
  "split_build [] i text = [drop i text]"
| "split_build (m # ms) i text = py_slice text i (m_start m) # split_build ms (m_end m) text"

definition re_split :: "regex \<Rightarrow> nat \<Rightarrow> ustr \<Rightarrow> ustr list" where
  "re_split r maxsplit text = split_build (limit maxsplit (finditer r text)) 0 text"

section \<open>Utilities of the program\<close>

text \<open>The classes \<^verbatim>\<open>\s\<close> and \<^verbatim>\<open>\d\<close>, and a class of listed characters.\<close>

definition ws :: cls where
  "ws = In ws_ranges"

definition dg :: cls where
  "dg = In digit_ranges"

definition chars :: "uchar list \<Rightarrow> cls" where
  "chars cs = In (map (\<lambda>c. (c, c)) cs)"

text \<open>
  \<^verbatim>\<open>normalize_spaces\<close>, with its four substitutions
  \<^verbatim>\<open>\r\n?\<close>, \<^verbatim>\<open>[\t\f\v]\<close>, \<^verbatim>\<open>[ \u00A0]+\<close> and \<^verbatim>\<open>\n{3,}\<close>.
\<close>

definition RE_CRLF :: regex where
  "RE_CRLF = Seq (Chr (chars [0x0D])) (Opt (Chr (chars [0x0A])))"

definition RE_TAB :: regex where
  "RE_TAB = Chr (chars [0x09, 0x0C, 0x0B])"

definition RE_SPACES :: regex where
  "RE_SPACES = Rep (chars [0x20, 0xA0]) 1 None"

definition RE_NL3 :: regex where
  "RE_NL3 = Rep (chars [0x0A]) 3 None"

definition normalize_spaces :: "ustr \<Rightarrow> ustr" where
  "normalize_spaces s =
     (let s1 = re_sub RE_CRLF [0x0A] 0 s;
          s2 = re_sub RE_TAB [0x20] 0 s1;
          s3 = re_sub RE_SPACES [0x20] 0 s2;
          s4 = re_sub RE_NL3 [0x0A, 0x0A] 0 s3
      in strip (join [0x0A] (map rstrip (split_on 0x0A s4))))"

text \<open>
  \<^verbatim>\<open>str.upper\<close>, as far as \<^verbatim>\<open>norm_letters\<close> can tell: that function deletes every
  character outside A to H from the upper-cased string at once. The letters a to z go
  to A to Z; seven other characters have an upper case that contains one of A to H
  (U+1E96, U+1E9A and the ligatures U+FB00 to U+FB04) and go to it; the upper case of
  any other character holds no letter A to H, so the character stands for it.
\<close>

definition upper_char :: "uchar \<Rightarrow> ustr" where
  "upper_char c =
     (if 0x61 \<le> c \<and> c \<le> 0x7A then [c - 0x20]
      else if c = 0x1E96 then [0x48, 0x331]
      else if c = 0x1E9A then [0x41, 0x2BE]
      else if c = 0xFB00 then [0x46, 0x46]
      else if c = 0xFB01 then [0x46, 0x49]
      else if c = 0xFB02 then [0x46, 0x4C]
      else if c = 0xFB03 then [0x46, 0x46, 0x49]
      else if c = 0xFB04 then [0x46, 0x46, 0x4C]
      else [c])"

definition upper :: "ustr \<Rightarrow> ustr" where
  "upper s = concat (map upper_char s)"

definition RE_NOT_A_H :: regex where
  "RE_NOT_A_H = Chr (NotIn [(0x41, 0x48)])"

definition norm_letters :: "ustr \<Rightarrow> ustr" where
  "norm_letters s = sort (remdups (re_sub RE_NOT_A_H [] 0 (upper s)))"

section \<open>Parsing rules\<close>

text \<open>
  The section names: U+5355 U+9009 U+9898 (single choice) and its long form,
  U+591A U+9009 U+9898 (multiple choice) and its long form, U+5224 U+65AD U+9898
  (true or false), U+586B U+7A7A U+9898 (fill in), U+9605 U+8BFB U+7406 U+89E3 (reading
  comprehension), U+7B80 U+7B54 U+9898 (short answer), and U+672A U+77E5 (unknown).
\<close>

definition sec_single :: ustr where "sec_single = [0x5355, 0x9009, 0x9898]"
definition sec_single_long :: ustr where "sec_single_long = [0x5355, 0x9879, 0x9009, 0x62E9, 0x9898]"
definition sec_multi :: ustr where "sec_multi = [0x591A, 0x9009, 0x9898]"
definition sec_multi_long :: ustr where "sec_multi_long = [0x591A, 0x9879, 0x9009, 0x62E9, 0x9898]"
definition sec_judge :: ustr where "sec_judge = [0x5224, 0x65AD, 0x9898]"
definition sec_fill :: ustr where "sec_fill = [0x586B, 0x7A7A, 0x9898]"
definition sec_reading :: ustr where "sec_reading = [0x9605, 0x8BFB, 0x7406, 0x89E3]"
definition sec_short :: ustr where "sec_short = [0x7B80, 0x7B54, 0x9898]"
definition sec_unknown :: ustr where "sec_unknown = [0x672A, 0x77E5]"

text \<open>
  One pattern of \<^verbatim>\<open>SECTION_PATTERNS\<close>:
  \<^verbatim>\<open>(?m)^\s*(?:[<ten Chinese numerals>\d]+[<U+3001>\.]\s*)?(?:name|name)\s*$\<close>.
\<close>

definition enumerator :: cls where
  "enumerator = In (map (\<lambda>c. (c, c))
       [0x4E00, 0x4E8C, 0x4E09, 0x56DB, 0x4E94, 0x516D, 0x4E03, 0x516B, 0x4E5D, 0x5341]
     @ digit_ranges)"

definition heading :: "ustr list \<Rightarrow> regex" where
  "heading names =
     seqs [BolM, Rep ws 0 None,
           Opt (seqs [Rep enumerator 1 None, Chr (chars [0x3001, 0x2E]), Rep ws 0 None]),
           alts (map Lit names), Rep ws 0 None, EolM]"

definition SECTION_PATTERNS :: "(regex \<times> ustr) list" where
  "SECTION_PATTERNS =
     [(heading [sec_single_long, sec_single], sec_single),
      (heading [sec_multi_long, sec_multi], sec_multi),
      (heading [sec_judge], sec_judge),
      (heading [sec_fill], sec_fill),
      (heading [sec_reading], sec_reading),
      (heading [sec_short], sec_short)]"

definition build_section_markers :: "ustr \<Rightarrow> (nat \<times> ustr) list" where
  "build_section_markers text =
     sort_key fst
       (concat (map (\<lambda>(pat, name). map (\<lambda>m. (m_start m, name)) (finditer pat text))
                    SECTION_PATTERNS))"

fun section_at_from :: "ustr \<Rightarrow> (nat \<times> ustr) list \<Rightarrow> nat \<Rightarrow> ustr" where
  "section_at_from cur [] pos = cur"
| "section_at_from cur ((p, name) # markers) pos =
     (if p \<le> pos then section_at_from name markers pos else cur)"

definition section_at :: "(nat \<times> ustr) list \<Rightarrow> nat \<Rightarrow> ustr" where
  "section_at markers pos = section_at_from sec_unknown markers pos"

text \<open>
  The patterns \<^verbatim>\<open>QSTART\<close>, \<^verbatim>\<open>OPT_SINGLE\<close>, \<^verbatim>\<open>OPT_INLINE\<close>, \<^verbatim>\<open>ANS_MARK\<close>,
  \<^verbatim>\<open>ANA_MARK\<close> and \<^verbatim>\<open>SUBQ_START\<close>. U+3001 is the ideographic comma, U+FF08 and
  U+FF09 the full-width parentheses, U+FF1A the full-width colon.
\<close>

definition QSTART :: regex where
  "QSTART =
     seqs [BolM, Rep ws 0 None, Grp 1 (Rep dg 1 None),
           Alt (Chr (chars [0x3001])) (Seq (Chr (chars [0x2E])) (NLook (Chr dg))),
           Rep ws 0 None]"

definition OPT_SINGLE :: regex where
  "OPT_SINGLE = seqs [Bol, Grp 1 (Chr (In [(0x41, 0x48)])), Chr (chars [0x3001, 0x2E, 0x29]), Eol]"

definition OPT_INLINE :: regex where
  "OPT_INLINE =
     seqs [Bol, Grp 1 (Chr (In [(0x41, 0x48)])), Chr (chars [0x3001, 0x2E, 0x29]),
           Rep ws 0 None, Grp 2 (Rep (NotIn [(0x0A, 0x0A)]) 1 None), Eol]"

definition ANS_MARK :: regex where
  "ANS_MARK =
     seqs [Bol,
           Grp 1 (alts [Lit [0x6B63, 0x786E, 0x7B54, 0x6848], Lit [0x53C2, 0x8003, 0x7B54, 0x6848],
                        Lit [0x7B54, 0x6848]]),
           Rep ws 0 None, Opt (Chr (chars [0x3A, 0xFF1A]))]"

definition ANA_MARK :: regex where
  "ANA_MARK =
     seqs [Bol, Grp 1 (alts [Lit [0x89E3, 0x6790], Lit [0x7B54, 0x6848, 0x89E3, 0x6790]]),
           Rep ws 0 None, Opt (Chr (chars [0x3A, 0xFF1A]))]"

definition SUBQ_START :: regex where
  "SUBQ_START =
     seqs [BolM, Rep ws 0 None, Chr (chars [0xFF08, 0x28]), Grp 1 (Rep dg 1 (Some 2)),
           Chr (chars [0xFF09, 0x29]), Rep ws 0 None, Chr (chars [0x3001, 0x2E, 0x29])]"

text \<open>The pattern \<^verbatim>\<open>[:<U+FF1A>]\<close> at which an answer or analysis line is split.\<close>

definition RE_COLON :: regex where
  "RE_COLON = Chr (chars [0x3A, 0xFF1A])"

definition matches :: "regex \<Rightarrow> ustr \<Rightarrow> bool" where
  "matches r l = (re_match r l \<noteq> None)"

text \<open>The inner loop of \<^verbatim>\<open>parse_answer_from_lines\<close>: skip the blank lines from \<open>j\<close> on.\<close>

function skip_blank :: "ustr list \<Rightarrow> nat \<Rightarrow> nat" where
  "skip_blank lines j =
     (if j < length lines \<and> strip (lines ! j) = [] then skip_blank lines (j + 1) else j)"
  by pat_completeness auto
termination
  by (relation "measure (\<lambda>(lines, j). length lines - j)") auto

declare skip_blank.simps [simp del]

function parse_answer_from_lines :: "ustr list \<Rightarrow> nat \<Rightarrow> ustr \<times> nat" where
  "parse_answer_from_lines lines i =
     (if i < length lines then
        (let l = lines ! i in
         if matches ANS_MARK l then
           (let parts = re_split RE_COLON 1 l in
            if length parts = 2 \<and> strip (parts ! 1) \<noteq> [] then (strip (parts ! 1), i + 1)
            else
              (let j = skip_blank lines (i + 1)
               in (if j < length lines then strip (lines ! j) else [], j + 1)))
         else parse_answer_from_lines lines (i + 1))
      else ([], length lines))"
  by pat_completeness auto
termination
  by (relation "measure (\<lambda>(lines, i). length lines - i)") auto

declare parse_answer_from_lines.simps [simp del]

function parse_analysis_from_lines :: "ustr list \<Rightarrow> nat \<Rightarrow> ustr" where
  "parse_analysis_from_lines lines i =
     (if i < length lines then
        (let l = lines ! i in
         if matches ANA_MARK l then
           (let parts = re_split RE_COLON 1 l in
            if length parts = 2 \<and> strip (parts ! 1) \<noteq> [] then strip (parts ! 1)
            else strip (join [0x20] (drop (i + 1) lines)))
         else parse_analysis_from_lines lines (i + 1))
      else [])"
  by pat_completeness auto
termination
  by (relation "measure (\<lambda>(lines, i). length lines - i)") auto

declare parse_analysis_from_lines.simps [simp del]

definition infer_qtype :: "ustr \<Rightarrow> (ustr \<times> ustr) list \<Rightarrow> ustr \<Rightarrow> string" where
  "infer_qtype section_name options answer =
     (if section_name = sec_judge then ''judge''
      else if options \<noteq> [] then
        (let letters = norm_letters answer in
         if length letters \<ge> 2 then ''multi''
         else if length letters = 1 then ''single''
         else ''choice'')
      else if section_name = sec_fill then ''fill''
      else if section_name = sec_short then ''short''
      else if section_name = sec_reading then ''text''
      else ''text'')"

section \<open>Question records\<close>

text \<open>
  The dictionary that the parser builds for one question. An option is the pair of its
  \<^verbatim>\<open>key\<close> and its \<^verbatim>\<open>text\<close>. The score is kept as the numeral to which the source
  applies \<^verbatim>\<open>float\<close> (a float is not modelled; \<^verbatim>\<open>float\<close> accepts every string that
  the score pattern captures, so the \<^verbatim>\<open>except\<close> branch is never taken).
\<close>

record question =
  q_source :: ustr
  q_number_in_source :: nat
  q_section :: ustr
  q_qtype :: string
  q_stem :: ustr
  q_options :: "(ustr \<times> ustr) list"
  q_answer :: ustr
  q_analysis :: ustr
  q_score :: "ustr option"

datatype py_error = ValueError

text \<open>
  \<^verbatim>\<open>m.group(n)\<close> where the program reads it: the groups it reads take part in every
  match of their pattern.
\<close>

definition group :: "rematch \<Rightarrow> nat \<Rightarrow> ustr" where
  "group m n = (case m_group m n of None \<Rightarrow> [] | Some g \<Rightarrow> g)"

text \<open>
  \<^verbatim>\<open>int(s)\<close> for a string of decimal digits, of any script. CPython (3.11, and the
  security releases of the older versions) refuses to convert more than 4300 digits and
  raises \<^verbatim>\<open>ValueError\<close>, as it does for the empty string.
\<close>

definition digit_value :: "uchar \<Rightarrow> nat" where
  "digit_value c =
     (case find (\<lambda>(lo, hi). lo \<le> c \<and> c \<le> hi) digit_ranges of
        None \<Rightarrow> 0
      | Some (lo, hi) \<Rightarrow> (c - lo) mod 10)"

definition int_max_str_digits :: nat where
  "int_max_str_digits = 4300"

definition int_of_digits :: "ustr \<Rightarrow> py_error + nat" where
  "int_of_digits ds =
     (if ds = [] \<or> \<not> list_all is_digit ds \<or> length ds > int_max_str_digits then Inl ValueError
      else Inr (foldl (\<lambda>a c. 10 * a + digit_value c) 0 ds))"

text \<open>\<^verbatim>\<open>str(n)\<close> for a natural number, as an f-string interpolates it.\<close>

fun str_of_nat :: "nat \<Rightarrow> ustr" where
  "str_of_nat n = (if n < 10 then [0x30 + n] else str_of_nat (n div 10) @ [0x30 + n mod 10])"

declare str_of_nat.simps [simp del]

section \<open>Parsing one block\<close>

text \<open>
  The list comprehension at the head of \<^verbatim>\<open>parse_block_common\<close> and in the loop of
  \<^verbatim>\<open>split_reading_block\<close>: split at newlines, collapse every run of white space to one
  space, strip, and drop the empty lines.
\<close>

definition RE_WS_RUN :: regex where
  "RE_WS_RUN = Rep ws 1 None"

definition clean_lines :: "ustr \<Rightarrow> ustr list" where
  "clean_lines block_text =
     filter (\<lambda>l. l \<noteq> []) (map (\<lambda>l. strip (re_sub RE_WS_RUN [0x20] 0 l)) (split_on 0x0A block_text))"

text \<open>
  \<^verbatim>\<open>^\s*{number_in_source}[<U+3001>\.]\s*\<close>, with and without \<^verbatim>\<open>(?m)\<close>, and the score
  pattern \<^verbatim>\<open><U+FF08>\s*(\d+(?:\.\d+)?)\s*<U+FF09>\<close>.
\<close>

definition number_mark :: "regex \<Rightarrow> nat \<Rightarrow> regex" where
  "number_mark bol number_in_source =
     seqs [bol, Rep ws 0 None, Lit (str_of_nat number_in_source), Chr (chars [0x3001, 0x2E]),
           Rep ws 0 None]"

definition RE_SCORE :: regex where
  "RE_SCORE =
     seqs [Chr (chars [0xFF08]), Rep ws 0 None,
           Grp 1 (Seq (Rep dg 1 None) (Opt (Seq (Chr (chars [0x2E])) (Rep dg 1 None)))),
           Rep ws 0 None, Chr (chars [0xFF09])]"

text \<open>The first loop: the stem runs until an answer mark or an option line.\<close>

function stem_loop :: "ustr list \<Rightarrow> nat \<Rightarrow> ustr list \<Rightarrow> ustr list \<times> nat" where
  "stem_loop lines i stem_parts =
     (if i < length lines then
        (let l = lines ! i in
         if matches ANS_MARK l \<or> matches OPT_SINGLE l \<or> matches OPT_INLINE l then (stem_parts, i)
         else stem_loop lines (i + 1) (stem_parts @ [l]))
      else (stem_parts, i))"
  by pat_completeness auto
termination
  by (relation "measure (\<lambda>(lines, i, stem_parts). length lines - i)") auto

declare stem_loop.simps [simp del]

text \<open>The second loop: the options, until an answer mark.\<close>

function options_loop ::
  "ustr list \<Rightarrow> nat \<Rightarrow> (ustr \<times> ustr) list \<Rightarrow> (ustr \<times> ustr) list \<times> nat" where
  "options_loop lines i options =
     (if i < length lines then
        (let l = lines ! i in
         if matches ANS_MARK l then (options, i)
         else
           (case re_match OPT_SINGLE l of
              Some m1 \<Rightarrow>
                if i + 1 < length lines \<and> \<not> matches ANS_MARK (lines ! (i + 1))
                then options_loop lines (i + 2) (options @ [(group m1 1, lines ! (i + 1))])
                else options_loop lines (i + 1) options
            | None \<Rightarrow>
                (case re_match OPT_INLINE l of
                   Some m2 \<Rightarrow> options_loop lines (i + 1) (options @ [(group m2 1, group m2 2)])
                 | None \<Rightarrow> options_loop lines (i + 1) options)))
      else (options, i))"
  by pat_completeness auto
termination
  by (relation "measure (\<lambda>(lines, i, options). length lines - i)") auto

declare options_loop.simps [simp del]

definition parse_block_common :: "ustr \<Rightarrow> nat \<Rightarrow> ustr \<Rightarrow> ustr \<Rightarrow> question list" where
  "parse_block_common block_text number_in_source section_name source_name =
     (let lines = clean_lines block_text in
      if lines = [] then []
      else
        (let first0 = strip (re_sub (number_mark Bol number_in_source) [] 0 (lines ! 0));
             mscore = re_search RE_SCORE first0;
             score = (case mscore of None \<Rightarrow> None | Some m \<Rightarrow> Some (group m 1));
             first = (case mscore of None \<Rightarrow> first0
                      | Some m \<Rightarrow> strip (re_sub RE_SCORE [] 0 first0));
             (stem_parts, i1) = stem_loop lines 1 [first];
             (options, i2) = options_loop lines i1 [];
             (answer, next_idx) = parse_answer_from_lines lines i2;
             analysis = parse_analysis_from_lines lines next_idx;
             stem = strip (join [0x20] stem_parts);
             qtype = infer_qtype section_name options answer
         in [\<lparr>q_source = source_name, q_number_in_source = number_in_source,
              q_section = section_name, q_qtype = qtype, q_stem = stem, q_options = options,
              q_answer = strip answer, q_analysis = strip analysis, q_score = score\<rparr>]))"

section \<open>Reading comprehension\<close>

text \<open>
  The match list with, for each match, where its span ends: at the start of the next
  match, or at \<open>n\<close> for the last one. Both \<^verbatim>\<open>split_reading_block\<close> and
  \<^verbatim>\<open>parse_questions\<close> compute their spans this way.
\<close>

fun spans :: "rematch list \<Rightarrow> nat \<Rightarrow> (rematch \<times> nat) list" where
  "spans [] n = []"
| "spans [m] n = [(m, n)]"
| "spans (m # m' # ms) n = (m, m_start m') # spans (m' # ms) n"

text \<open>
  \<^verbatim>\<open>^\s*[<U+FF08>\(]\d+[<U+FF09>\)]\s*\<close>, which removes the marker of a sub-question,
  and the label U+3010 U+9605 U+8BFB U+6750 U+6599 U+3011 put before the passage.
\<close>

definition RE_SUB_MARK :: regex where
  "RE_SUB_MARK =
     seqs [Bol, Rep ws 0 None, Chr (chars [0xFF08, 0x28]), Rep dg 1 None,
           Chr (chars [0xFF09, 0x29]), Rep ws 0 None]"

definition passage_label :: ustr where
  "passage_label = [0x3010, 0x9605, 0x8BFB, 0x6750, 0x6599, 0x3011]"

definition sub_stem :: "ustr list \<Rightarrow> ustr" where
  "sub_stem lines = strip (join [0x20] (takeWhile (\<lambda>l. \<not> matches ANS_MARK l) lines))"

definition full_stem :: "ustr \<Rightarrow> ustr \<Rightarrow> ustr \<Rightarrow> ustr" where
  "full_stem passage sub_no stem =
     (if passage \<noteq> [] then
        strip (passage_label @ passage @ [0x0A, 0x0A, 0x28] @ sub_no @ [0x29, 0x20] @ stem)
      else strip ([0x28] @ sub_no @ [0x29, 0x20] @ stem))"

definition block_wo_num :: "ustr \<Rightarrow> nat \<Rightarrow> ustr" where
  "block_wo_num block_text number_in_source =
     strip (re_sub (number_mark BolM number_in_source) [] 1 block_text)"

text \<open>The cleaned lines of one sub-question, its marker removed.\<close>

definition sub_lines :: "ustr \<Rightarrow> rematch \<times> nat \<Rightarrow> ustr list" where
  "sub_lines bwn me =
     (let sub_text0 = strip (py_slice bwn (m_start (fst me)) (snd me));
          sub_text = strip (re_sub RE_SUB_MARK [] 0 sub_text0)
      in clean_lines sub_text)"

definition sub_question ::
  "ustr \<Rightarrow> ustr \<Rightarrow> nat \<Rightarrow> ustr \<Rightarrow> rematch \<times> nat \<Rightarrow> question" where
  "sub_question bwn passage number_in_source source_name me =
     (let sub_no = group (fst me) 1;
          lines = sub_lines bwn me;
          (answer, next_idx) = parse_answer_from_lines lines 0;
          analysis = parse_analysis_from_lines lines next_idx
      in \<lparr>q_source = source_name, q_number_in_source = number_in_source,
           q_section = sec_reading, q_qtype = ''text'',
           q_stem = full_stem passage sub_no (sub_stem lines), q_options = [],
           q_answer = strip answer, q_analysis = strip analysis, q_score = None\<rparr>)"

definition split_reading_block :: "ustr \<Rightarrow> nat \<Rightarrow> ustr \<Rightarrow> question list" where
  "split_reading_block block_text number_in_source source_name =
     (let bwn = block_wo_num block_text number_in_source;
          subs = finditer SUBQ_START bwn
      in if subs = [] then parse_block_common block_text number_in_source sec_reading source_name
         else
           (let passage = strip (py_slice bwn 0 (m_start (subs ! 0)))
            in map (sub_question bwn passage number_in_source source_name)
                   (spans subs (length bwn))))"

section \<open>Parsing a document\<close>

text \<open>
  The first loop of \<^verbatim>\<open>parse_questions\<close>: one block \<open>(start, end, number)\<close> for each
  question start. \<^verbatim>\<open>int\<close> may raise, and then the whole call raises.
\<close>

fun blocks_of :: "(rematch \<times> nat) list \<Rightarrow> py_error + (nat \<times> nat \<times> nat) list" where
  "blocks_of [] = Inr []"
| "blocks_of ((m, e) # ms) =
     (case int_of_digits (group m 1) of
        Inl err \<Rightarrow> Inl err
      | Inr number \<Rightarrow>
          (case blocks_of ms of
             Inl err \<Rightarrow> Inl err
           | Inr blocks \<Rightarrow> Inr ((m_start m, e, number) # blocks)))"

definition question_blocks :: "ustr \<Rightarrow> py_error + (nat \<times> nat \<times> nat) list" where
  "question_blocks text = blocks_of (spans (finditer QSTART text) (length text))"

definition parse_block ::
  "ustr \<Rightarrow> (nat \<times> ustr) list \<Rightarrow> ustr \<Rightarrow> nat \<times> nat \<times> nat \<Rightarrow> question list" where
  "parse_block text markers source_name b =
     (case b of (start, end, number) \<Rightarrow>
        (let section_name = section_at markers start;
             block = strip (py_slice text start end)
         in if section_name = sec_reading then split_reading_block block number source_name
            else parse_block_common block number section_name source_name))"

definition parse_questions :: "ustr \<Rightarrow> ustr \<Rightarrow> py_error + question list" where
  "parse_questions plain_text source_name =
     (let text = normalize_spaces plain_text;
          markers = build_section_markers text
      in case question_blocks text of
           Inl err \<Rightarrow> Inl err
         | Inr blocks \<Rightarrow> Inr (concat (map (parse_block text markers source_name) blocks)))"

section \<open>Properties of the search loop\<close>

lemma scan_bounds:
  "m \<in> set (scan r adv p s) \<Longrightarrow>
     length p \<le> m_start m \<and> m_start m \<le> m_end m \<and> m_end m \<le> length p + length s"
proof (induction r adv p s rule: scan.induct)
  case (1 r adv p s)
  show ?case
  proof (cases "search r adv p s")
    case None
    with 1(2) show ?thesis by (simp add: scan.simps)
  next
    case (Some be)
    obtain b e where be: "be = (b, e)" by (cases be)
    from search_consumes [of r adv p s b e] Some be have
      a: "rev (before e) @ rest e = rev p @ s" and b: "length p \<le> b" and c: "b \<le> length (before e)"
      by auto
    from a have f: "length (before e) + length (rest e) = length p + length s"
      by (metis length_append length_rev)
    from 1(2) Some be have
      "m = ReMatch b (length (before e)) (groups e)
       \<or> m \<in> set (scan r (length (before e) = b) (before e) (rest e))"
      by (simp add: scan.simps [of r adv p s])
    then show ?thesis
    proof
      assume "m = ReMatch b (length (before e)) (groups e)"
      with b c f show ?thesis by simp
    next
      assume "m \<in> set (scan r (length (before e) = b) (before e) (rest e))"
      from 1(1) [OF Some be [symmetric] this] b c f show ?thesis by simp
    qed
  qed
qed

text \<open>
  A pattern is local when a match at a position depends only on the text from there on,
  is never empty and captures nothing: \<open>f s\<close> is the length of the match at the head
  of \<open>s\<close>, or 0 when there is none.
\<close>

definition local_pattern :: "regex \<Rightarrow> (ustr \<Rightarrow> nat) \<Rightarrow> bool" where
  "local_pattern r f \<longleftrightarrow>
     (\<forall>p s. f s \<le> length s \<and>
        match_here r False p s =
          (if f s = 0 then None else Some (MState (rev (take (f s) s) @ p) (drop (f s) s) [])))"

function subst :: "(ustr \<Rightarrow> nat) \<Rightarrow> ustr \<Rightarrow> ustr \<Rightarrow> ustr" where
  "subst f repl [] = []"
| "subst f repl (c # cs) =
     (if f (c # cs) = 0 then c # subst f repl cs
      else repl @ subst f repl (drop (f (c # cs)) (c # cs)))"
  by pat_completeness auto
termination
  by (relation "measure (\<lambda>(f, repl, s). length s)") auto

declare subst.simps(2) [simp del]

lemma sub_build_step:
  assumes "i < length text" and "\<forall>m\<in>set ms. i < m_start m"
  shows "sub_build repl ms i text = text ! i # sub_build repl ms (Suc i) text"
proof (cases ms)
  case Nil
  with assms show ?thesis by (simp add: Cons_nth_drop_Suc)
next
  case (Cons m ms')
  with assms have "i < m_start m" by simp
  with assms(1) have "py_slice text i (m_start m) = text ! i # py_slice text (Suc i) (m_start m)"
    by (simp add: py_slice_def Cons_nth_drop_Suc [symmetric] take_Cons' Suc_diff_Suc)
  with Cons show ?thesis by simp
qed

lemma scan_local:
  assumes loc: "local_pattern r f"
  shows "sub_build repl (scan r False p s) (length p) (rev p @ s) = subst f repl s"
proof (induction "length s" arbitrary: p s rule: less_induct)
  case less
  from loc have fl: "f s \<le> length s"
    and mh: "match_here r False p s =
      (if f s = 0 then None else Some (MState (rev (take (f s) s) @ p) (drop (f s) s) []))"
    by (auto simp: local_pattern_def)
  show ?case
  proof (cases s)
    case Nil
    with fl mh show ?thesis by (simp add: scan.simps)
  next
    case (Cons c cs)
    show ?thesis
    proof (cases "f s = 0")
      case True
      with mh Cons have "scan r False p s = scan r False (c # p) cs"
        by (simp add: scan.simps [of r False p "c # cs"] scan.simps [of r False "c # p" cs])
      moreover have "\<forall>m\<in>set (scan r False (c # p) cs). length p < m_start m"
        using scan_bounds [of _ r False "c # p" cs] by fastforce
      moreover have "sub_build repl (scan r False (c # p) cs) (length (c # p)) (rev (c # p) @ cs)
          = subst f repl cs"
        using less [of cs "c # p"] Cons by simp
      ultimately show ?thesis using True Cons
        by (simp add: sub_build_step subst.simps(2) nth_append)
    next
      case False
      let ?n = "f s"
      let ?p' = "rev (take ?n s) @ p"
      from False mh Cons have
        "scan r False p s = ReMatch (length p) (length ?p') [] # scan r False ?p' (drop ?n s)"
        using fl by (simp add: scan.simps [of r False p "c # cs"])
      moreover have "sub_build repl (scan r False ?p' (drop ?n s)) (length ?p') (rev ?p' @ drop ?n s)
          = subst f repl (drop ?n s)"
        using less [of "drop ?n s" ?p'] False Cons by simp
      ultimately show ?thesis using False Cons
        by (simp add: subst.simps(2) py_slice_def)
    qed
  qed
qed

lemma re_sub_local: "local_pattern r f \<Longrightarrow> re_sub r repl 0 text = subst f repl text"
  using scan_local [of r f repl "[]" "text"] by (simp add: re_sub_def finditer_def limit_def)

lemma match_here_Chr:
  "match_here (Chr k) False p s =
     (case s of [] \<Rightarrow> None | c # cs \<Rightarrow> if in_cls c k then Some (MState (c # p) cs []) else None)"
  by (simp add: match_here_def split: list.splits)

lemma local_Chr:
  "local_pattern (Chr k) (\<lambda>s. case s of [] \<Rightarrow> 0 | c # cs \<Rightarrow> if in_cls c k then 1 else 0)"
  by (auto simp: local_pattern_def match_here_Chr split: list.splits)

lemma subst_Chr_delete:
  "subst (\<lambda>s. case s of [] \<Rightarrow> 0 | c # cs \<Rightarrow> if in_cls c k then 1 else 0) [] s
     = filter (\<lambda>c. \<not> in_cls c k) s"
  by (induction s) (auto simp: subst.simps(2))

lemma subst_Chr_replace:
  "subst (\<lambda>s. case s of [] \<Rightarrow> 0 | c # cs \<Rightarrow> if in_cls c k then 1 else 0) [x] s
     = map (\<lambda>c. if in_cls c k then x else c) s"
  by (induction s) (auto simp: subst.simps(2))

lemma reps_unbounded:
  "reps k None p s =
     map (\<lambda>i. (rev (take i s) @ p, drop i s)) [0..<Suc (length (takeWhile (\<lambda>c. in_cls c k) s))]"
proof (induction s arbitrary: p)
  case Nil
  show ?case by simp
next
  case (Cons c cs)
  show ?case
  proof (cases "in_cls c k")
    case False
    then show ?thesis by simp
  next
    case True
    let ?n = "length (takeWhile (\<lambda>c. in_cls c k) cs)"
    have "[0..<Suc (Suc ?n)] = 0 # map Suc [0..<Suc ?n]"
      by (metis map_Suc_upt upt_conv_Cons zero_less_Suc)
    with True Cons [of "c # p"] show ?thesis by (simp add: comp_def)
  qed
qed

lemma match_here_Rep:
  assumes "0 < lo"
  shows "match_here (Rep k lo None) False p s =
     (let n = length (takeWhile (\<lambda>c. in_cls c k) s)
      in if lo \<le> n then Some (MState (rev (take n s) @ p) (drop n s) []) else None)"
proof -
  let ?n = "length (takeWhile (\<lambda>c. in_cls c k) s)"
  let ?g = "\<lambda>i. MState (rev (take i s) @ p) (drop i s) []"
  have "rmatch (Rep k lo None) (MState p s []) = map ?g (rev (drop lo [0..<Suc ?n]))"
    by (simp add: reps_unbounded drop_map rev_map comp_def del: upt_Suc)
  also have "drop lo [0..<Suc ?n] = [lo..<Suc ?n]" by (simp del: upt_Suc)
  finally have eq: "rmatch (Rep k lo None) (MState p s []) = map ?g (rev [lo..<Suc ?n])" .
  show ?thesis
  proof (cases "lo \<le> ?n")
    case True
    then have "[lo..<Suc ?n] = [lo..<?n] @ [?n]" by simp
    then show ?thesis using True unfolding match_here_def eq by (simp add: Let_def del: upt_Suc)
  next
    case False
    then show ?thesis unfolding match_here_def eq by (simp add: Let_def)
  qed
qed

lemma local_Rep:
  "0 < lo \<Longrightarrow> local_pattern (Rep k lo None)
     (\<lambda>s. let n = length (takeWhile (\<lambda>c. in_cls c k) s) in if lo \<le> n then n else 0)"
  unfolding local_pattern_def
  by (auto simp: match_here_Rep Let_def intro: order_trans [OF length_takeWhile_le])

section \<open>The type classifier\<close>

text \<open>
  The decision table as the specification words it. An answer normalizes to letters by:
  uppercase, discard any character outside A to H, deduplicate, sort. The letters are
  written out here without reference to the program's functions: a letter of A to H is
  one of the letters of an answer when the answer holds it, or its lower-case form, or one
  of the seven characters whose upper case holds it.
\<close>

definition shows_letter :: "ustr \<Rightarrow> uchar \<Rightarrow> bool" where
  "shows_letter answer c \<longleftrightarrow>
     c \<in> set answer \<or> c + 0x20 \<in> set answer
     \<or> c = 0x48 \<and> 0x1E96 \<in> set answer
     \<or> c = 0x41 \<and> 0x1E9A \<in> set answer
     \<or> c = 0x46 \<and> (0xFB00 \<in> set answer \<or> 0xFB01 \<in> set answer \<or> 0xFB02 \<in> set answer
                    \<or> 0xFB03 \<in> set answer \<or> 0xFB04 \<in> set answer)"

definition letters_spec :: "ustr \<Rightarrow> ustr" where
  "letters_spec answer = filter (shows_letter answer) [0x41, 0x42, 0x43, 0x44, 0x45, 0x46, 0x47, 0x48]"

definition classify_spec :: "ustr \<Rightarrow> (ustr \<times> ustr) list \<Rightarrow> ustr \<Rightarrow> string" where
  "classify_spec section_name options answer =
     (if section_name = sec_judge then ''judge''
      else if options \<noteq> [] \<and> length (letters_spec answer) \<ge> 2 then ''multi''
      else if options \<noteq> [] \<and> length (letters_spec answer) = 1 then ''single''
      else if options \<noteq> [] \<and> length (letters_spec answer) = 0 then ''choice''
      else if options = [] \<and> section_name = sec_fill then ''fill''
      else if options = [] \<and> section_name = sec_short then ''short''
      else if options = [] \<and> section_name = sec_reading then ''text''
      else ''text'')"

lemma norm_letters_filter:
  "norm_letters s = sort (remdups (filter (\<lambda>c. 0x41 \<le> c \<and> c \<le> 0x48) (upper s)))"
proof -
  have "re_sub RE_NOT_A_H [] 0 (upper s) = filter (\<lambda>c. \<not> in_cls c (NotIn [(0x41, 0x48)])) (upper s)"
    unfolding RE_NOT_A_H_def by (simp only: re_sub_local [OF local_Chr] subst_Chr_delete)
  then show ?thesis by (simp add: norm_letters_def in_ranges_def)
qed

lemma upper_char_letter:
  "0x41 \<le> c \<Longrightarrow> c \<le> 0x48 \<Longrightarrow>
     c \<in> set (upper_char d) \<longleftrightarrow>
       d = c \<or> d = c + 0x20 \<or> c = 0x48 \<and> d = 0x1E96 \<or> c = 0x41 \<and> d = 0x1E9A
       \<or> c = 0x46 \<and> (d = 0xFB00 \<or> d = 0xFB01 \<or> d = 0xFB02 \<or> d = 0xFB03 \<or> d = 0xFB04)"
  unfolding upper_char_def by auto

lemma upper_letter:
  assumes "0x41 \<le> c" "c \<le> 0x48"
  shows "c \<in> set (upper s) \<longleftrightarrow> shows_letter s c"
proof -
  have "c \<in> set (upper s) \<longleftrightarrow> (\<exists>d\<in>set s. c \<in> set (upper_char d))"
    by (auto simp: upper_def)
  also have "\<dots> \<longleftrightarrow> shows_letter s c"
    unfolding shows_letter_def by (simp only: upper_char_letter [OF assms]) blast
  finally show ?thesis .
qed

lemma letters_spec_set: "set (letters_spec s) = {c. 0x41 \<le> c \<and> c \<le> 0x48 \<and> shows_letter s c}"
proof -
  have "set [0x41, 0x42, 0x43, 0x44, 0x45, 0x46, 0x47, 0x48 :: nat] = {c. 0x41 \<le> c \<and> c \<le> 0x48}"
    by auto
  then show ?thesis unfolding letters_spec_def set_filter by blast
qed

lemma letters_spec_sorted: "sorted (letters_spec s) \<and> distinct (letters_spec s)"
  unfolding letters_spec_def by (simp add: sorted_wrt_filter)

lemma norm_letters_spec: "norm_letters s = letters_spec s"
proof -
  let ?f = "filter (\<lambda>c. 0x41 \<le> c \<and> c \<le> 0x48) (upper s)"
  have "set (sort (remdups ?f)) = set (letters_spec s)"
    unfolding letters_spec_set using upper_letter by auto
  moreover have "sorted (sort (remdups ?f))" "distinct (sort (remdups ?f))" by simp_all
  ultimately have "sort (remdups ?f) = letters_spec s"
    using letters_spec_sorted by (metis sorted_distinct_set_unique)
  then show ?thesis by (simp only: norm_letters_filter)
qed

lemma norm_letters_examples:
  "norm_letters [0x41, 0x43] = [0x41, 0x43]"
  "norm_letters [0x42] = [0x42]"
  "norm_letters [] = []"
  "norm_letters [0x61, 0x63] = [0x41, 0x43]"
  "norm_letters [0x62] = [0x42]"
  "norm_letters [0x63, 0x20, 0x61, 0x2C, 0x41, 0x78, 0x43] = [0x41, 0x43]"
  "norm_letters [0x78, 0x49, 0x69, 0x31] = []"
  by (simp_all add: norm_letters_filter upper_def upper_char_def)

text \<open>
  C6. The classifier is the decision table of the specification, evaluated in order, on
  the letters of the answer: the letters of A to H that the answer shows in either case,
  each once, in ascending order. The section U+5224 U+65AD U+9898 gives \<open>judge\<close> whatever
  the options and the answer are; with options, two or more letters give \<open>multi\<close>, one
  letter \<open>single\<close>, none \<open>choice\<close>; without options the section decides between \<open>fill\<close>,
  \<open>short\<close> and \<open>text\<close>. For the options A, B, C, D (in any other section) the answer AC
  gives \<open>multi\<close>, B gives \<open>single\<close> and the empty answer gives \<open>choice\<close>; so do the answers
  ac and b in lower case and an answer without a letter of A to H, and the answer
  \<open>c a,AxC\<close> normalizes to AC.
\<close>

theorem infer_qtype_decision_table:
  "infer_qtype section_name options answer = classify_spec section_name options answer
   \<and> norm_letters answer = letters_spec answer
   \<and> set (norm_letters answer) = {c. 0x41 \<le> c \<and> c \<le> 0x48 \<and> shows_letter answer c}
   \<and> sorted (norm_letters answer) \<and> distinct (norm_letters answer)
   \<and> norm_letters [0x63, 0x20, 0x61, 0x2C, 0x41, 0x78, 0x43] = [0x41, 0x43]
   \<and> infer_qtype sec_judge options answer = ''judge''
   \<and> (section_name \<noteq> sec_judge \<longrightarrow>
        infer_qtype section_name [([0x41], ta), ([0x42], tb), ([0x43], tc), ([0x44], td)] [0x41, 0x43]
          = ''multi''
      \<and> infer_qtype section_name [([0x41], ta), ([0x42], tb), ([0x43], tc), ([0x44], td)] [0x42]
          = ''single''
      \<and> infer_qtype section_name [([0x41], ta), ([0x42], tb), ([0x43], tc), ([0x44], td)] []
          = ''choice''
      \<and> infer_qtype section_name [([0x41], ta), ([0x42], tb), ([0x43], tc), ([0x44], td)] [0x61, 0x63]
          = ''multi''
      \<and> infer_qtype section_name [([0x41], ta), ([0x42], tb), ([0x43], tc), ([0x44], td)] [0x62]
          = ''single''
      \<and> infer_qtype section_name [([0x41], ta), ([0x42], tb), ([0x43], tc), ([0x44], td)]
            [0x78, 0x49, 0x69, 0x31]
          = ''choice'')"
proof -
  define n where "n = length (letters_spec answer)"
  have table: "infer_qtype section_name options answer = classify_spec section_name options answer"
    unfolding infer_qtype_def classify_spec_def Let_def norm_letters_spec n_def [symmetric]
    by (cases "options = []"; cases "2 \<le> n"; cases "n = 1") auto
  have letters: "set (norm_letters answer) = {c. 0x41 \<le> c \<and> c \<le> 0x48 \<and> shows_letter answer c}"
    "sorted (norm_letters answer)" "distinct (norm_letters answer)"
    unfolding norm_letters_spec using letters_spec_set letters_spec_sorted by blast+
  have judge: "infer_qtype sec_judge options answer = ''judge''"
    by (simp add: infer_qtype_def)
  have ex: "section_name \<noteq> sec_judge \<Longrightarrow>
        infer_qtype section_name [([0x41], ta), ([0x42], tb), ([0x43], tc), ([0x44], td)] [0x41, 0x43]
          = ''multi''
      \<and> infer_qtype section_name [([0x41], ta), ([0x42], tb), ([0x43], tc), ([0x44], td)] [0x42]
          = ''single''
      \<and> infer_qtype section_name [([0x41], ta), ([0x42], tb), ([0x43], tc), ([0x44], td)] []
          = ''choice''
      \<and> infer_qtype section_name [([0x41], ta), ([0x42], tb), ([0x43], tc), ([0x44], td)] [0x61, 0x63]
          = ''multi''
      \<and> infer_qtype section_name [([0x41], ta), ([0x42], tb), ([0x43], tc), ([0x44], td)] [0x62]
          = ''single''
      \<and> infer_qtype section_name [([0x41], ta), ([0x42], tb), ([0x43], tc), ([0x44], td)]
            [0x78, 0x49, 0x69, 0x31]
          = ''choice''"
    by (simp add: infer_qtype_def norm_letters_examples)
  from table norm_letters_spec letters norm_letters_examples(6) judge ex show ?thesis by blast
qed

theorem infer_qtype_decision_table_witness:
  "sec_single \<noteq> sec_judge
   \<and> infer_qtype sec_single [([0x41], []), ([0x42], []), ([0x43], []), ([0x44], [])] [0x41, 0x43]
        = ''multi''
   \<and> infer_qtype sec_single [([0x41], []), ([0x42], []), ([0x43], []), ([0x44], [])] [0x42]
        = ''single''
   \<and> infer_qtype sec_single [([0x41], []), ([0x42], []), ([0x43], []), ([0x44], [])] []
        = ''choice''
   \<and> infer_qtype sec_single [([0x41], []), ([0x42], []), ([0x43], []), ([0x44], [])] [0x61, 0x63]
        = ''multi''
   \<and> infer_qtype sec_single [([0x41], []), ([0x42], []), ([0x43], []), ([0x44], [])] [0x62]
        = ''single''
   \<and> infer_qtype sec_judge [([0x41], [])] [0x61, 0x63] = ''judge''
   \<and> infer_qtype sec_fill [] [0x41] = classify_spec sec_fill [] [0x41]
   \<and> norm_letters [0x61, 0x63] = letters_spec [0x61, 0x63]
   \<and> letters_spec [0x61, 0x63] = [0x41, 0x43]"
proof -
  have ne: "sec_single \<noteq> sec_judge" by (simp add: sec_single_def sec_judge_def)
  have ls: "letters_spec [0x61, 0x63] = [0x41, 0x43]"
    by (simp add: letters_spec_def shows_letter_def)
  from ne ls infer_qtype_decision_table [of sec_single "[([0x41], [])]" "[0x61, 0x63]" "[]" "[]" "[]" "[]"]
    infer_qtype_decision_table [of sec_fill "[]" "[0x41]"]
  show ?thesis by simp
qed

section \<open>What a match says about the text\<close>

lemma rmatch_Seq_iff:
  "e \<in> set (rmatch (Seq r1 r2) st) \<longleftrightarrow> (\<exists>m\<in>set (rmatch r1 st). e \<in> set (rmatch r2 m))"
  by auto

lemma rmatch_Chr_iff:
  "e \<in> set (rmatch (Chr k) st) \<longleftrightarrow>
     (\<exists>c. rest st = c # rest e \<and> in_cls c k \<and> before e = c # before st \<and> groups e = groups st)"
  by (cases st; cases e) (auto split: list.splits)

lemma reps_nth:
  "i < length (reps k hi p s) \<Longrightarrow>
     reps k hi p s ! i = (rev (take i s) @ p, drop i s) \<and> i \<le> length s
     \<and> (\<forall>c\<in>set (take i s). in_cls c k) \<and> (\<forall>h. hi = Some h \<longrightarrow> i \<le> h)"
proof (induction s arbitrary: i p hi)
  case Nil
  then show ?case by simp
next
  case (Cons c cs)
  show ?case
  proof (cases i)
    case 0
    then show ?thesis by simp
  next
    case (Suc j)
    with Cons.prems have ok: "in_cls c k" "hi \<noteq> Some 0"
      and j: "j < length (reps k (map_option (\<lambda>n. n - 1) hi) (c # p) cs)"
      by (auto split: if_splits)
    from Cons.IH [OF j] ok Suc show ?thesis
      by (cases hi) auto
  qed
qed

lemma rmatch_Rep_D:
  assumes "e \<in> set (rmatch (Rep k lo hi) st)"
  shows "\<exists>w. rest st = w @ rest e \<and> before e = rev w @ before st \<and> groups e = groups st
           \<and> (\<forall>c\<in>set w. in_cls c k) \<and> lo \<le> length w \<and> (\<forall>h. hi = Some h \<longrightarrow> length w \<le> h)"
proof -
  let ?xs = "reps k hi (before st) (rest st)"
  from assms obtain ps where ps: "ps \<in> set (drop lo ?xs)"
    and e: "e = MState (fst ps) (snd ps) (groups st)"
    by (auto simp: case_prod_beta)
  from ps obtain j where j: "j < length (drop lo ?xs)" "ps = drop lo ?xs ! j"
    by (metis in_set_conv_nth)
  then have i: "lo + j < length ?xs" and psi: "ps = ?xs ! (lo + j)" by auto
  from reps_nth [OF i] psi e have
    "rest st = take (lo + j) (rest st) @ rest e"
    "before e = rev (take (lo + j) (rest st)) @ before st"
    "groups e = groups st"
    "\<forall>c\<in>set (take (lo + j) (rest st)). in_cls c k"
    "lo \<le> length (take (lo + j) (rest st))"
    "\<forall>h. hi = Some h \<longrightarrow> length (take (lo + j) (rest st)) \<le> h"
    by auto
  then show ?thesis by blast
qed

lemma rmatch_BolM_iff:
  "e \<in> set (rmatch BolM st) \<longleftrightarrow> e = st \<and> (before st = [] \<or> hd (before st) = 0x0A)"
  by auto

lemma rmatch_EolM_iff:
  "e \<in> set (rmatch EolM st) \<longleftrightarrow> e = st \<and> (rest st = [] \<or> hd (rest st) = 0x0A)"
  by auto

lemma rmatch_NLook_iff:
  "e \<in> set (rmatch (NLook r) st) \<longleftrightarrow> e = st \<and> rmatch r st = []"
  by auto

lemma rmatch_Grp_iff:
  "e \<in> set (rmatch (Grp n r) st) \<longleftrightarrow>
     (\<exists>e'\<in>set (rmatch r st). before e = before e' \<and> rest e = rest e'
        \<and> groups e = (n, take (length (rest st) - length (rest e')) (rest st)) # groups e')"
  by (cases e) auto

text \<open>Every match that the search loop reports is a match of the pattern where it starts.\<close>

lemma match_here_sound:
  "match_here r adv p s = Some e \<Longrightarrow> e \<in> set (rmatch r (MState p s []))"
proof -
  assume "match_here r adv p s = Some e"
  then obtain ys where
    "filter (\<lambda>e. \<not> adv \<or> length (rest e) \<noteq> length s) (rmatch r (MState p s [])) = e # ys"
    by (auto simp: match_here_def split: list.splits)
  then have "e \<in> set (filter (\<lambda>e. \<not> adv \<or> length (rest e) \<noteq> length s) (rmatch r (MState p s [])))"
    by simp
  then show ?thesis by simp
qed

lemma search_sound:
  "search r adv p s = Some (b, e) \<Longrightarrow>
     \<exists>p' s'. rev p' @ s' = rev p @ s \<and> b = length p' \<and> e \<in> set (rmatch r (MState p' s' []))"
proof (induction r adv p s rule: search.induct)
  case (1 r adv p)
  then show ?case by (auto dest: match_here_sound)
next
  case (2 r adv p c cs)
  show ?case
  proof (cases "match_here r adv p (c # cs)")
    case None
    with 2 have "\<exists>p' s'. rev p' @ s' = rev (c # p) @ cs \<and> b = length p'
        \<and> e \<in> set (rmatch r (MState p' s' []))" by simp
    then show ?thesis by simp
  next
    case (Some e')
    with 2(2) have "e' = e" "b = length p" by auto
    with match_here_sound [OF Some] show ?thesis by blast
  qed
qed

lemma scan_sound:
  "m \<in> set (scan r adv p s) \<Longrightarrow>
     \<exists>p' s' e. rev p' @ s' = rev p @ s \<and> m_start m = length p'
       \<and> e \<in> set (rmatch r (MState p' s' [])) \<and> m_end m = length (before e)
       \<and> m_groups m = groups e"
proof (induction r adv p s rule: scan.induct)
  case (1 r adv p s)
  show ?case
  proof (cases "search r adv p s")
    case None
    with 1(2) show ?thesis by (simp add: scan.simps)
  next
    case (Some be)
    obtain b e where be: "be = (b, e)" by (cases be)
    from 1(2) Some be have
      "m = ReMatch b (length (before e)) (groups e)
       \<or> m \<in> set (scan r (length (before e) = b) (before e) (rest e))"
      by (simp add: scan.simps [of r adv p s])
    then show ?thesis
    proof
      assume "m = ReMatch b (length (before e)) (groups e)"
      with search_sound [of r adv p s b e] Some be show ?thesis by auto
    next
      assume "m \<in> set (scan r (length (before e) = b) (before e) (rest e))"
      from 1(1) [OF Some be [symmetric] this]
        search_consumes [of r adv p s b e] Some be
      show ?thesis by auto
    qed
  qed
qed

lemma finditer_sound:
  assumes "m \<in> set (finditer r tx)"
  shows "m_start m \<le> length tx \<and>
     (\<exists>e \<in> set (rmatch r (MState (rev (take (m_start m) tx)) (drop (m_start m) tx) [])).
        m_end m = length (before e) \<and> m_groups m = groups e)"
proof -
  from assms scan_sound [of m r False "[]" tx] obtain p' s' e where
    a: "rev p' @ s' = tx" and b: "m_start m = length p'"
    and c: "e \<in> set (rmatch r (MState p' s' []))" and d: "m_end m = length (before e)"
    and g: "m_groups m = groups e"
    by (auto simp: finditer_def)
  from a b have "take (m_start m) tx = rev p'" "drop (m_start m) tx = s'" by auto
  then have "rev (take (m_start m) tx) = p'" by simp
  with a b c d g \<open>drop (m_start m) tx = s'\<close> show ?thesis by auto
qed

text \<open>The matches are reported from left to right and do not overlap.\<close>

lemma scan_sorted: "sorted_wrt (\<lambda>m m'. m_end m \<le> m_start m') (scan r adv p s)"
proof (induction r adv p s rule: scan.induct)
  case (1 r adv p s)
  show ?case
  proof (cases "search r adv p s")
    case None
    then show ?thesis by (simp add: scan.simps)
  next
    case (Some be)
    obtain b e where be: "be = (b, e)" by (cases be)
    have "\<forall>m'\<in>set (scan r (length (before e) = b) (before e) (rest e)). length (before e) \<le> m_start m'"
      using scan_bounds by blast
    with 1 [OF Some be [symmetric]] Some be show ?thesis
      by (simp add: scan.simps [of r adv p s])
  qed
qed

lemma in_cls_ws [simp]: "in_cls c ws = is_space c"
  by (simp add: ws_def is_space_def)

lemma in_cls_dg [simp]: "in_cls c dg = is_digit c"
  by (simp add: dg_def is_digit_def)

lemma in_cls_chars [simp]: "in_cls c (chars cs) = (c \<in> set cs)"
  by (induction cs) (auto simp: chars_def in_ranges_def)

lemma rmatch_NLook_Chr:
  "rmatch (Chr k) st = [] \<longleftrightarrow> rest st = [] \<or> \<not> in_cls (hd (rest st)) k"
  by (cases "rest st") auto

lemma QSTART_match_D:
  assumes "e \<in> set (rmatch QSTART (MState p s []))"
  shows "(p = [] \<or> hd p = 0x0A) \<and>
     (\<exists>w ds sep w2. s = w @ ds @ sep # w2 @ rest e \<and> (\<forall>c\<in>set w. is_space c)
        \<and> ds \<noteq> [] \<and> (\<forall>c\<in>set ds. is_digit c) \<and> (\<forall>c\<in>set w2. is_space c)
        \<and> (sep = 0x3001 \<or> sep = 0x2E \<and> (w2 @ rest e = [] \<or> \<not> is_digit (hd (w2 @ rest e))))
        \<and> groups e = [(1, ds)])"
proof -
  let ?st = "MState p s []"
  from assms obtain s1 s2 s3 s4 where
    1: "s1 \<in> set (rmatch BolM ?st)" and
    2: "s2 \<in> set (rmatch (Rep ws 0 None) s1)" and
    3: "s3 \<in> set (rmatch (Grp 1 (Rep dg 1 None)) s2)" and
    4: "s4 \<in> set (rmatch (Alt (Chr (chars [0x3001])) (Seq (Chr (chars [0x2E])) (NLook (Chr dg)))) s3)" and
    5: "e \<in> set (rmatch (Rep ws 0 None) s4)"
    unfolding QSTART_def seqs.simps rmatch_Seq_iff by blast
  from 1 have s1: "s1 = ?st" and bol: "p = [] \<or> hd p = 0x0A"
    by (auto simp: rmatch_BolM_iff split: if_splits)
  from rmatch_Rep_D [OF 2] s1 obtain w where
    w: "s = w @ rest s2" "\<forall>c\<in>set w. is_space c" "groups s2 = []"
    by auto
  from 3 obtain s3' where r3: "s3' \<in> set (rmatch (Rep dg 1 None) s2)"
    and s3: "rest s3 = rest s3'"
      "groups s3 = (1, take (length (rest s2) - length (rest s3')) (rest s2)) # groups s3'"
    unfolding rmatch_Grp_iff by blast
  from rmatch_Rep_D [OF r3] obtain ds where
    ds: "rest s2 = ds @ rest s3'" "\<forall>c\<in>set ds. is_digit c" "1 \<le> length ds" "groups s3' = groups s2"
    by auto
  from ds s3 w have g3: "groups s3 = [(1, ds)]" by simp
  have "\<exists>sep. rest s3 = sep # rest s4 \<and> groups s4 = groups s3
      \<and> (sep = 0x3001 \<or> sep = 0x2E \<and> (rest s4 = [] \<or> \<not> is_digit (hd (rest s4))))"
  proof -
    from 4 consider
      (a) "s4 \<in> set (rmatch (Chr (chars [0x3001])) s3)"
      | (b) "s4 \<in> set (rmatch (Seq (Chr (chars [0x2E])) (NLook (Chr dg))) s3)"
      by auto
    then show ?thesis
    proof cases
      case a
      then show ?thesis unfolding rmatch_Chr_iff by auto
    next
      case b
      then obtain m where m: "m \<in> set (rmatch (Chr (chars [0x2E])) s3)"
        and n: "s4 \<in> set (rmatch (NLook (Chr dg)) m)"
        unfolding rmatch_Seq_iff by blast
      from n have "s4 = m" "rmatch (Chr dg) m = []" unfolding rmatch_NLook_iff by auto
      with m show ?thesis unfolding rmatch_Chr_iff rmatch_NLook_Chr by auto
    qed
  qed
  then obtain sep where sep: "rest s3 = sep # rest s4" "groups s4 = groups s3"
    "sep = 0x3001 \<or> sep = 0x2E \<and> (rest s4 = [] \<or> \<not> is_digit (hd (rest s4)))"
    by blast
  from rmatch_Rep_D [OF 5] obtain w2 where
    w2: "rest s4 = w2 @ rest e" "\<forall>c\<in>set w2. is_space c" "groups e = groups s4"
    by auto
  from w ds s3 sep w2 g3 have
    "s = w @ ds @ sep # w2 @ rest e \<and> (\<forall>c\<in>set w. is_space c)
        \<and> ds \<noteq> [] \<and> (\<forall>c\<in>set ds. is_digit c) \<and> (\<forall>c\<in>set w2. is_space c)
        \<and> (sep = 0x3001 \<or> sep = 0x2E \<and> (w2 @ rest e = [] \<or> \<not> is_digit (hd (w2 @ rest e))))
        \<and> groups e = [(1, ds)]"
    by auto
  with bol show ?thesis by blast
qed

lemma QSTART_finditer_D:
  assumes "m \<in> set (finditer QSTART tx)"
  shows "m_start m < m_end m \<and> m_end m \<le> length tx
     \<and> (m_start m = 0 \<or> tx ! (m_start m - 1) = 0x0A)
     \<and> (\<exists>w ds sep tl. drop (m_start m) tx = w @ ds @ sep # tl \<and> (\<forall>c\<in>set w. is_space c)
          \<and> ds \<noteq> [] \<and> (\<forall>c\<in>set ds. is_digit c) \<and> group m 1 = ds
          \<and> (sep = 0x3001 \<or> sep = 0x2E \<and> (tl = [] \<or> \<not> is_digit (hd tl))))"
proof -
  let ?b = "m_start m"
  from finditer_sound [OF assms] obtain e where
    b: "?b \<le> length tx" and
    e: "e \<in> set (rmatch QSTART (MState (rev (take ?b tx)) (drop ?b tx) []))" and
    me: "m_end m = length (before e)" and g: "m_groups m = groups e"
    by blast
  from QSTART_match_D [OF e] obtain w ds sep w2 where
    bol: "rev (take ?b tx) = [] \<or> hd (rev (take ?b tx)) = 0x0A" and
    sh: "drop ?b tx = w @ ds @ sep # w2 @ rest e" "\<forall>c\<in>set w. is_space c"
      "ds \<noteq> []" "\<forall>c\<in>set ds. is_digit c"
      "sep = 0x3001 \<or> sep = 0x2E \<and> (w2 @ rest e = [] \<or> \<not> is_digit (hd (w2 @ rest e)))"
      "groups e = [(1, ds)]"
    by blast
  from rmatch_consumes [OF e] have
    c: "rev (before e) @ rest e = take ?b tx @ drop ?b tx" by simp
  then have l1: "length (before e) + length (rest e) = length tx"
    by (metis append_take_drop_id length_append length_rev)
  have "length (drop ?b tx) = length (w @ ds @ sep # w2 @ rest e)"
    using sh(1) by simp
  then have l2: "length tx - ?b = length w + length ds + 1 + length w2 + length (rest e)"
    by simp
  from sh(3) have l3: "0 < length ds" by simp
  from l1 l2 l3 me b have len: "?b < m_end m" "m_end m \<le> length tx"
    by linarith+
  have bol': "?b = 0 \<or> tx ! (?b - 1) = 0x0A"
  proof (cases "?b = 0")
    case False
    with b bol have "hd (rev (take ?b tx)) = 0x0A" by auto
    moreover have "hd (rev (take ?b tx)) = tx ! (?b - 1)"
    proof -
      from False b have ne: "take ?b tx \<noteq> []" by auto
      from False b have "length (take ?b tx) = ?b" by simp
      with ne have "last (take ?b tx) = take ?b tx ! (?b - 1)"
        by (simp add: last_conv_nth)
      also from False have "\<dots> = tx ! (?b - 1)" by simp
      finally show ?thesis using ne by (simp add: hd_rev)
    qed
    ultimately show ?thesis by simp
  qed simp
  from g sh(6) have "group m 1 = ds" by (simp add: group_def m_group_def)
  with sh len bol' show ?thesis by blast
qed

section \<open>Segmentation\<close>

lemma QSTART_starts_sorted: "sorted_wrt (\<lambda>m m'. m_start m < m_start m') (finditer QSTART tx)"
proof -
  have s: "sorted_wrt (\<lambda>m m'. m_end m \<le> m_start m') (finditer QSTART tx)"
    unfolding finditer_def by (rule scan_sorted)
  have lt: "\<And>m. m \<in> set (finditer QSTART tx) \<Longrightarrow> m_start m < m_end m"
    using QSTART_finditer_D by blast
  show ?thesis
    by (rule sorted_wrt_mono_rel [OF _ s]) (use lt in fastforce)
qed

lemma spans_fst: "map fst (spans ms n) = ms"
  by (induction ms n rule: spans.induct) auto

lemma spans_props:
  assumes "sorted_wrt (\<lambda>m m'. m_start m < m_start m') ms" and "\<forall>m\<in>set ms. m_start m < n"
    and "ms \<noteq> []"
  shows "successively (\<lambda>x y. snd x = m_start (fst y)) (spans ms n)
     \<and> snd (last (spans ms n)) = n
     \<and> (\<forall>x\<in>set (spans ms n). m_start (fst x) < snd x \<and> snd x \<le> n)
     \<and> sorted_wrt (\<lambda>x y. snd x \<le> m_start (fst y)) (spans ms n)
     \<and> (\<Union>x\<in>set (spans ms n). {m_start (fst x)..<snd x}) = {m_start (hd ms)..<n}"
  using assms
proof (induction ms n rule: spans.induct)
  case (1 n)
  then show ?case by simp
next
  case (2 m n)
  then show ?case by simp
next
  case (3 m m' ms n)
  let ?r = "spans (m' # ms) n"
  from 3 have ih: "successively (\<lambda>x y. snd x = m_start (fst y)) ?r"
    "snd (last ?r) = n"
    "\<forall>x\<in>set ?r. m_start (fst x) < snd x \<and> snd x \<le> n"
    "sorted_wrt (\<lambda>x y. snd x \<le> m_start (fst y)) ?r"
    "(\<Union>x\<in>set ?r. {m_start (fst x)..<snd x}) = {m_start m'..<n}"
    by auto
  from 3(2) have lt: "m_start m < m_start m'" and lts: "\<forall>y\<in>set ms. m_start m' < m_start y"
    by auto
  from 3(3) have m'n: "m_start m' < n" by simp
  have ne: "?r \<noteq> []" by (cases ms) auto
  have hd: "fst (hd ?r) = m'" by (cases ms) auto
  have fsts: "fst ` set ?r = set (m' # ms)"
    using spans_fst [of "m' # ms" n] by (metis set_map)
  have a: "successively (\<lambda>x y. snd x = m_start (fst y)) ((m, m_start m') # ?r)"
    using ih(1) ne hd by (cases ?r) auto
  have b: "snd (last ((m, m_start m') # ?r)) = n"
    using ih(2) ne by simp
  have c: "\<forall>x\<in>set ((m, m_start m') # ?r). m_start (fst x) < snd x \<and> snd x \<le> n"
    using ih(3) lt m'n by auto
  have d: "sorted_wrt (\<lambda>x y. snd x \<le> m_start (fst y)) ((m, m_start m') # ?r)"
  proof -
    have "\<forall>y\<in>set ?r. m_start m' \<le> m_start (fst y)"
    proof
      fix y assume "y \<in> set ?r"
      then have "fst y \<in> set (m' # ms)" using fsts by blast
      with lts show "m_start m' \<le> m_start (fst y)" by auto
    qed
    with ih(4) show ?thesis by simp
  qed
  have e: "(\<Union>x\<in>set ((m, m_start m') # ?r). {m_start (fst x)..<snd x}) = {m_start m..<n}"
    using ih(5) lt m'n by auto
  from a b c d e show ?case by simp
qed

lemma blocks_of_Inr:
  "blocks_of xs = Inr bs \<Longrightarrow>
     list_all2 (\<lambda>x b. fst b = m_start (fst x) \<and> fst (snd b) = snd x
                  \<and> int_of_digits (group (fst x) 1) = Inr (snd (snd b))) xs bs"
proof (induction xs arbitrary: bs)
  case Nil
  then show ?case by simp
next
  case (Cons x xs)
  obtain m e where x: "x = (m, e)" by (cases x)
  from Cons.prems x obtain number bs' where
    n: "int_of_digits (group m 1) = Inr number" and r: "blocks_of xs = Inr bs'"
    and bs: "bs = (m_start m, e, number) # bs'"
    by (auto split: sum.splits)
  from Cons.IH [OF r] n bs x show ?case by simp
qed

lemma blocks_of_Inl:
  "blocks_of xs = Inl err \<Longrightarrow> \<exists>x\<in>set xs. int_of_digits (group (fst x) 1) = Inl err"
proof (induction xs)
  case Nil
  then show ?case by simp
next
  case (Cons x xs)
  obtain m e where x: "x = (m, e)" by (cases x)
  with Cons show ?case by (auto split: sum.splits)
qed

lemma int_of_digits_Inl:
  "int_of_digits ds = Inl err \<Longrightarrow> ds \<noteq> [] \<Longrightarrow> \<forall>c\<in>set ds. is_digit c \<Longrightarrow>
     length ds > int_max_str_digits"
  by (auto simp: int_of_digits_def list_all_iff split: if_splits)

text \<open>The blocks are the spans with their first two components, in the same order.\<close>

lemma blocks_as_spans:
  assumes "blocks_of xs = Inr bs"
  shows "map (\<lambda>b. (fst b, fst (snd b))) bs = map (\<lambda>x. (m_start (fst x), snd x)) xs"
  using blocks_of_Inr [OF assms]
  by (induction xs bs rule: list_all2_induct) auto

lemma successively_map_iff:
  "successively P (map f xs) = successively (\<lambda>x y. P (f x) (f y)) xs"
  by (induction xs rule: induct_list012) auto

lemma sorted_wrt_map_iff:
  "sorted_wrt P (map f xs) = sorted_wrt (\<lambda>x y. P (f x) (f y)) xs"
  by (induction xs) auto

lemma rmatch_Rep_list:
  "rmatch (Rep k lo None) (MState p s g) =
     map (\<lambda>i. MState (rev (take i s) @ p) (drop i s) g)
         (rev [lo..<Suc (length (takeWhile (\<lambda>c. in_cls c k) s))])"
proof -
  let ?n = "length (takeWhile (\<lambda>c. in_cls c k) s)"
  have "rmatch (Rep k lo None) (MState p s g)
      = map (\<lambda>i. MState (rev (take i s) @ p) (drop i s) g) (rev (drop lo [0..<Suc ?n]))"
    by (simp add: reps_unbounded drop_map rev_map comp_def del: upt_Suc)
  also have "drop lo [0..<Suc ?n] = [lo..<Suc ?n]" by (simp del: upt_Suc)
  finally show ?thesis .
qed

lemma rmatch_Rep_longest:
  assumes "lo \<le> length w" and "\<forall>c\<in>set w. in_cls c k" and "s = [] \<or> \<not> in_cls (hd s) k"
  shows "\<exists>es. rmatch (Rep k lo None) (MState p (w @ s) g) = MState (rev w @ p) s g # es"
proof -
  from assms(2,3) have tw: "takeWhile (\<lambda>c. in_cls c k) (w @ s) = w"
    by (cases s) (simp_all add: takeWhile_append2)
  from assms(1) have "[lo..<Suc (length w)] = [lo..<length w] @ [length w]" by simp
  then have "rev [lo..<Suc (length w)] = length w # rev [lo..<length w]" by simp
  then show ?thesis unfolding rmatch_Rep_list tw by simp
qed

lemma ascii_digit: "0x30 \<le> c \<Longrightarrow> c \<le> 0x39 \<Longrightarrow> is_digit c \<and> \<not> is_space c"
  by (simp add: is_digit_def is_space_def in_ranges_def digit_ranges_def ws_ranges_def)

lemma comma_chars: "\<not> is_digit 0x3001" "\<not> is_space 0x3001"
  by (simp_all add: is_digit_def is_space_def in_ranges_def digit_ranges_def ws_ranges_def)

text \<open>
  A numeral of ASCII digits at the start of the text, followed by U+3001, is a question
  start, and the numeral is its group 1.
\<close>

lemma QSTART_numeral:
  assumes ne: "ds \<noteq> []" and dg: "\<forall>c\<in>set ds. 0x30 \<le> c \<and> c \<le> 0x39"
  shows "\<exists>e es. rmatch QSTART (MState [] (ds @ 0x3001 # t) []) = e # es \<and> groups e = [(1, ds)]"
proof -
  let ?s = "ds @ 0x3001 # t"
  let ?st = "MState [] ?s []"
  let ?A = "Alt (Chr (chars [0x3001])) (Seq (Chr (chars [0x2E])) (NLook (Chr dg)))"
  from dg ascii_digit have d: "\<forall>c\<in>set ds. in_cls c dg" and nsp: "\<forall>c\<in>set ds. \<not> is_space c"
    by auto
  from ne nsp have "\<not> in_cls (hd ?s) ws" by (cases ds) auto
  with rmatch_Rep_longest [of 0 "[]" ws ?s "[]" "[]"] obtain es1 where
    "rmatch (Rep ws 0 None) ?st = ?st # es1" by auto
  moreover have "length (rmatch (Rep ws 0 None) ?st) = 1"
    using \<open>\<not> in_cls (hd ?s) ws\<close> ne unfolding rmatch_Rep_list by (cases ds) auto
  ultimately have r1: "rmatch (Rep ws 0 None) ?st = [?st]" by (cases es1) auto
  from ne have "1 \<le> length ds" by (cases ds) auto
  from rmatch_Rep_longest [OF this d, of "0x3001 # t" "[]" "[]"] comma_chars obtain es2 where
    r2: "rmatch (Rep dg 1 None) ?st = MState (rev ds) (0x3001 # t) [] # es2" by auto
  let ?m3 = "MState (rev ds) (0x3001 # t) [(1, ds)]"
  from r2 obtain es3 where r3: "rmatch (Grp 1 (Rep dg 1 None)) ?st = ?m3 # es3"
    by (simp del: rmatch.simps(3))
  let ?m4 = "MState (0x3001 # rev ds) t [(1, ds)]"
  obtain es4 where r4: "rmatch ?A ?m3 = ?m4 # es4"
    by (simp add: chars_def in_ranges_def)
  have p1: "\<forall>c\<in>set (takeWhile is_space t). in_cls c ws"
    by (auto dest: set_takeWhileD)
  have p2: "dropWhile is_space t = [] \<or> \<not> in_cls (hd (dropWhile is_space t)) ws"
    using hd_dropWhile [of is_space t] by auto
  from rmatch_Rep_longest [OF _ p1 p2, of 0 "0x3001 # rev ds" "[(1, ds)]"]
  obtain es5 where
    r5: "rmatch (Rep ws 0 None) ?m4
       = MState (rev (takeWhile is_space t) @ 0x3001 # rev ds) (dropWhile is_space t) [(1, ds)] # es5"
    by (auto simp del: rmatch.simps)
  have "rmatch QSTART ?st = concat (map (rmatch (Seq ?A (Rep ws 0 None))) (rmatch (Grp 1 (Rep dg 1 None)) ?st))"
    unfolding QSTART_def seqs.simps rmatch.simps(4) by (simp add: r1 del: rmatch.simps(3,11))
  also have "\<dots> = rmatch (Seq ?A (Rep ws 0 None)) ?m3
      @ concat (map (rmatch (Seq ?A (Rep ws 0 None))) es3)"
    by (simp only: r3 list.map concat.simps)
  also have "rmatch (Seq ?A (Rep ws 0 None)) ?m3
      = rmatch (Rep ws 0 None) ?m4 @ concat (map (rmatch (Rep ws 0 None)) es4)"
    by (simp only: rmatch.simps(4) r4 list.map concat.simps)
  finally show ?thesis unfolding r5 by simp
qed

lemma finditer_QSTART_numeral:
  assumes "ds \<noteq> []" and "\<forall>c\<in>set ds. 0x30 \<le> c \<and> c \<le> 0x39"
  shows "\<exists>m ms. finditer QSTART (ds @ 0x3001 # t) = m # ms \<and> group m 1 = ds"
proof -
  from QSTART_numeral [OF assms, of t] obtain e es where
    r: "rmatch QSTART (MState [] (ds @ 0x3001 # t) []) = e # es" and g: "groups e = [(1, ds)]"
    by blast
  from r have mh: "match_here QSTART False [] (ds @ 0x3001 # t) = Some e"
    by (simp add: match_here_def)
  from assms(1) obtain c cs where s: "ds @ 0x3001 # t = c # cs" by (cases ds) auto
  from mh have "search QSTART False [] (ds @ 0x3001 # t) = Some (0, e)"
    unfolding s by simp
  then have "finditer QSTART (ds @ 0x3001 # t)
      = ReMatch 0 (length (before e)) (groups e) # scan QSTART (length (before e) = 0) (before e) (rest e)"
    unfolding finditer_def by (subst scan.simps) simp
  with g show ?thesis by (simp add: group_def m_group_def)
qed

lemma long_numeral_raises:
  assumes "\<forall>c\<in>set ds. 0x30 \<le> c \<and> c \<le> 0x39" and "length ds > int_max_str_digits"
  shows "finditer QSTART (ds @ 0x3001 # t) \<noteq> []
     \<and> question_blocks (ds @ 0x3001 # t) = Inl ValueError"
proof -
  from assms(2) have ne: "ds \<noteq> []" by auto
  from finditer_QSTART_numeral [OF ne assms(1), of t] obtain m ms where
    f: "finditer QSTART (ds @ 0x3001 # t) = m # ms" and g: "group m 1 = ds" by blast
  from assms(2) have i: "int_of_digits ds = Inl ValueError" by (simp add: int_of_digits_def)
  obtain x xs where sp: "spans (m # ms) (length (ds @ 0x3001 # t)) = (m, x) # xs"
    by (cases ms) auto
  from f i g show ?thesis unfolding question_blocks_def f sp by simp
qed

text \<open>
  When the text has at least one question start, either \<^verbatim>\<open>int\<close> raises on a
  numeral of more than 4300 digits and no block is produced, or the blocks start at the
  matches, each block ends where the next one starts, the last one ends at the end of the
  text, no block is empty, they are in ascending order without overlap, and together
  they cover exactly the positions from the first match to the end of the text.
\<close>

lemma segmentation_cases:
  assumes "finditer QSTART tx \<noteq> []"
  shows "case question_blocks tx of
           Inl err \<Rightarrow> \<exists>m\<in>set (finditer QSTART tx). length (group m 1) > int_max_str_digits
         | Inr blocks \<Rightarrow>
             map fst blocks = map m_start (finditer QSTART tx)
             \<and> successively (\<lambda>b b'. fst (snd b) = fst b') blocks
             \<and> fst (snd (last blocks)) = length tx
             \<and> (\<forall>b\<in>set blocks. fst b < fst (snd b))
             \<and> sorted_wrt (\<lambda>b b'. fst (snd b) \<le> fst b') blocks
             \<and> (\<Union>b\<in>set blocks. {fst b..<fst (snd b)})
                 = {m_start (hd (finditer QSTART tx))..<length tx}"
proof (cases "question_blocks tx")
  case (Inl err)
  let ?ms = "finditer QSTART tx"
  from Inl blocks_of_Inl [of "spans ?ms (length tx)" err] obtain x where
    x: "x \<in> set (spans ?ms (length tx))" and e: "int_of_digits (group (fst x) 1) = Inl err"
    by (auto simp: question_blocks_def)
  from x have "fst x \<in> set (map fst (spans ?ms (length tx)))" by simp
  then have m: "fst x \<in> set ?ms" by (simp only: spans_fst)
  from QSTART_finditer_D [OF m] have "group (fst x) 1 \<noteq> []" "\<forall>c\<in>set (group (fst x) 1). is_digit c"
    by auto
  from int_of_digits_Inl [OF e this] m Inl show ?thesis by auto
next
  case (Inr bs)
  let ?ms = "finditer QSTART tx"
  let ?xs = "spans ?ms (length tx)"
  let ?ivb = "map (\<lambda>b. (fst b, fst (snd b))) bs"
  let ?ivx = "map (\<lambda>x. (m_start (fst x), snd x)) ?xs"
  from Inr have bo: "blocks_of ?xs = Inr bs" by (simp add: question_blocks_def)
  have iv: "?ivb = ?ivx" by (rule blocks_as_spans [OF bo])
  have lt: "\<forall>m\<in>set ?ms. m_start m < length tx"
    using QSTART_finditer_D [of _ tx] by fastforce
  from spans_props [OF QSTART_starts_sorted lt assms] have
    p1: "successively (\<lambda>x y. snd x = m_start (fst y)) ?xs" and
    p2: "snd (last ?xs) = length tx" and
    p3: "\<forall>x\<in>set ?xs. m_start (fst x) < snd x \<and> snd x \<le> length tx" and
    p4: "sorted_wrt (\<lambda>x y. snd x \<le> m_start (fst y)) ?xs" and
    p5: "(\<Union>x\<in>set ?xs. {m_start (fst x)..<snd x}) = {m_start (hd ?ms)..<length tx}"
    by auto
  have xne: "?xs \<noteq> []" using assms spans_fst [of ?ms "length tx"] by auto
  have bne: "bs \<noteq> []" using iv xne by auto
  have a: "map fst bs = map m_start ?ms"
  proof -
    have "map fst bs = map fst ?ivb" by simp
    also have "\<dots> = map fst ?ivx" by (simp only: iv)
    also have "\<dots> = map m_start (map fst ?xs)" by simp
    finally show ?thesis by (simp only: spans_fst)
  qed
  have b: "successively (\<lambda>b b'. fst (snd b) = fst b') bs"
  proof -
    have "successively (\<lambda>x y. snd x = fst y) ?ivx" using p1 by (simp add: successively_map_iff)
    then have "successively (\<lambda>x y. snd x = fst y) ?ivb" by (simp only: iv)
    then show ?thesis by (simp add: successively_map_iff)
  qed
  have c: "fst (snd (last bs)) = length tx"
  proof -
    have "fst (snd (last bs)) = snd (last ?ivb)" using bne by (simp add: last_map)
    also have "\<dots> = snd (last ?ivx)" by (simp only: iv)
    also have "\<dots> = snd (last ?xs)" using xne by (simp add: last_map)
    finally show ?thesis using p2 by simp
  qed
  have d: "\<forall>b\<in>set bs. fst b < fst (snd b)"
  proof -
    have "\<forall>v\<in>set ?ivx. fst v < snd v" using p3 by auto
    then have "\<forall>v\<in>set ?ivb. fst v < snd v" by (simp only: iv)
    then show ?thesis by auto
  qed
  have e: "sorted_wrt (\<lambda>b b'. fst (snd b) \<le> fst b') bs"
  proof -
    have "sorted_wrt (\<lambda>x y. snd x \<le> fst y) ?ivx" using p4 by (simp add: sorted_wrt_map_iff)
    then have "sorted_wrt (\<lambda>x y. snd x \<le> fst y) ?ivb" by (simp only: iv)
    then show ?thesis by (simp add: sorted_wrt_map_iff)
  qed
  have f: "(\<Union>b\<in>set bs. {fst b..<fst (snd b)}) = {m_start (hd ?ms)..<length tx}"
  proof -
    have "(\<Union>b\<in>set bs. {fst b..<fst (snd b)}) = (\<Union>v\<in>set ?ivb. {fst v..<snd v})" by simp
    also have "\<dots> = (\<Union>v\<in>set ?ivx. {fst v..<snd v})" by (simp only: iv)
    also have "\<dots> = (\<Union>x\<in>set ?xs. {m_start (fst x)..<snd x})" by simp
    finally show ?thesis using p5 by simp
  qed
  from a b c d e f Inr show ?thesis by simp
qed

text \<open>
  A text of one line: 4301 digits \<open>1\<close>, U+3001 and a letter. It has a question start, and
  \<^verbatim>\<open>int\<close> raises on its number: the segmentation produces no block at all.
\<close>

theorem segmentation_long_numeral_counterexample:
  "finditer QSTART (replicate 4301 0x31 @ [0x3001, 0x78]) \<noteq> []
   \<and> question_blocks (replicate 4301 0x31 @ [0x3001, 0x78]) = Inl ValueError"
  using long_numeral_raises [of "replicate 4301 0x31" "[0x78]"]
  by (simp add: int_max_str_digits_def)

text \<open>
  C7, as the code has it. When the text has at least one question start and no question
  number of more than 4300 digits, the segmentation returns blocks: they start at the
  matches, each block ends where the next one starts, the last one ends at the end of the
  text, no block is empty, they are in ascending order without overlap, and together
  they cover exactly the positions from the first match to the end of the text.
\<close>

theorem segmentation_coverage:
  assumes "finditer QSTART tx \<noteq> []"
    and "\<forall>m\<in>set (finditer QSTART tx). length (group m 1) \<le> int_max_str_digits"
  shows "\<exists>blocks. question_blocks tx = Inr blocks
           \<and> map fst blocks = map m_start (finditer QSTART tx)
           \<and> successively (\<lambda>b b'. fst (snd b) = fst b') blocks
           \<and> fst (snd (last blocks)) = length tx
           \<and> (\<forall>b\<in>set blocks. fst b < fst (snd b))
           \<and> sorted_wrt (\<lambda>b b'. fst (snd b) \<le> fst b') blocks
           \<and> (\<Union>b\<in>set blocks. {fst b..<fst (snd b)})
               = {m_start (hd (finditer QSTART tx))..<length tx}"
proof (cases "question_blocks tx")
  case (Inl err)
  with segmentation_cases [OF assms(1)] have
    "\<exists>m\<in>set (finditer QSTART tx). length (group m 1) > int_max_str_digits" by simp
  with assms(2) show ?thesis by fastforce
next
  case (Inr blocks)
  with segmentation_cases [OF assms(1)] show ?thesis by simp
qed

text \<open>
  The line U+53C2 U+89C1, space, 1.2.1, space, U+8282 U+8BF4 U+660E of the version-number
  guard, and a document that holds it before two numbered questions.
\<close>

definition version_line :: ustr where
  "version_line = [0x53C2, 0x89C1, 0x20, 0x31, 0x2E, 0x32, 0x2E, 0x31, 0x20, 0x8282, 0x8BF4, 0x660E]"

definition two_questions :: ustr where
  "two_questions = version_line @ [0x0A, 0x31, 0x3001, 0x7532, 0x0A, 0x0A, 0x32, 0x2E, 0x20, 0x4E59]"

lemma blocks_of_mem:
  assumes "blocks_of xs = Inr bs" and "b \<in> set bs"
  shows "\<exists>x\<in>set xs. fst b = m_start (fst x) \<and> fst (snd b) = snd x
           \<and> int_of_digits (group (fst x) 1) = Inr (snd (snd b))"
proof -
  from assms(2) obtain i where i: "i < length bs" "bs ! i = b"
    by (auto simp: in_set_conv_nth)
  from blocks_of_Inr [OF assms(1)] i have
    "i < length xs" and
    "fst b = m_start (fst (xs ! i)) \<and> fst (snd b) = snd (xs ! i)
       \<and> int_of_digits (group (fst (xs ! i)) 1) = Inr (snd (snd b))"
    by (auto simp: list_all2_conv_all_nth)
  then show ?thesis by (metis nth_mem)
qed

lemma version_line_chars:
  "\<not> is_space 0x53C2" "\<not> is_digit 0x53C2" "0x0A \<notin> set version_line"
  by (simp_all add: is_space_def is_digit_def in_ranges_def ws_ranges_def digit_ranges_def
      version_line_def)

text \<open>
  C4. Every block starts at the beginning of a line, and the text from there on is white
  space, then one or more digits (the number of the block), then either U+3001 or a
  period that is not followed by a digit. No block starts inside the line with the
  version number 1.2.1, wherever that line stands in the text.
\<close>

theorem question_start_shape:
  assumes "question_blocks tx = Inr blocks" and "(start, end, number) \<in> set blocks"
  shows "(start = 0 \<or> tx ! (start - 1) = 0x0A)
     \<and> (\<exists>w ds sep tl. drop start tx = w @ ds @ sep # tl \<and> (\<forall>c\<in>set w. is_space c)
          \<and> ds \<noteq> [] \<and> (\<forall>c\<in>set ds. is_digit c) \<and> int_of_digits ds = Inr number
          \<and> (sep = 0x3001 \<or> sep = 0x2E \<and> (tl = [] \<or> \<not> is_digit (hd tl))))
     \<and> (\<forall>pre post. tx = pre @ version_line @ post \<longrightarrow>
          \<not> (length pre \<le> start \<and> start < length pre + length version_line))"
proof -
  let ?ms = "finditer QSTART tx"
  from assms(1) have bo: "blocks_of (spans ?ms (length tx)) = Inr blocks"
    by (simp add: question_blocks_def)
  from blocks_of_mem [OF bo assms(2)] obtain x where
    x: "x \<in> set (spans ?ms (length tx))" and st: "start = m_start (fst x)"
    and n: "int_of_digits (group (fst x) 1) = Inr number"
    by auto
  from x have "fst x \<in> set (map fst (spans ?ms (length tx)))" by simp
  then have m: "fst x \<in> set ?ms" by (simp only: spans_fst)
  from QSTART_finditer_D [OF m] st n obtain w ds sep tl where
    bol: "start = 0 \<or> tx ! (start - 1) = 0x0A" and
    sh: "drop start tx = w @ ds @ sep # tl" "\<forall>c\<in>set w. is_space c" "ds \<noteq> []"
      "\<forall>c\<in>set ds. is_digit c" "int_of_digits ds = Inr number"
      "sep = 0x3001 \<or> sep = 0x2E \<and> (tl = [] \<or> \<not> is_digit (hd tl))"
    by auto
  have guard: "\<not> (length pre \<le> start \<and> start < length pre + length version_line)"
    if tx: "tx = pre @ version_line @ post" for pre post
  proof
    assume r: "length pre \<le> start \<and> start < length pre + length version_line"
    show False
    proof (cases "start = length pre")
      case True
      with tx sh(1) have "w @ ds @ sep # tl = version_line @ post" by simp
      then have "hd (w @ ds @ sep # tl) = 0x53C2" by (simp add: version_line_def)
      moreover have "hd (w @ ds @ sep # tl) = (if w = [] then hd ds else hd w)"
        using sh(3) by (cases w) auto
      ultimately have "is_space 0x53C2 \<or> is_digit 0x53C2"
        using sh(2,3,4) by (cases w; cases ds) (auto split: if_splits)
      with version_line_chars show False by simp
    next
      case False
      with r have gt: "length pre < start" by simp
      with bol have nl: "tx ! (start - 1) = 0x0A" by auto
      from gt r have "tx ! (start - 1) = version_line ! (start - 1 - length pre)"
        unfolding tx by (auto simp: nth_append)
      moreover from gt r have "start - 1 - length pre < length version_line" by auto
      ultimately have "tx ! (start - 1) \<in> set version_line" by (metis nth_mem)
      with nl version_line_chars(3) show False by simp
    qed
  qed
  from bol sh guard show ?thesis by blast
qed

lemma two_questions_blocks: "question_blocks two_questions = Inr [(13, 17, 1), (17, 22, 2)]"
  by code_simp

lemma two_questions_matches: "finditer QSTART two_questions \<noteq> []"
  by code_simp

theorem question_start_shape_witness:
  "question_blocks two_questions = Inr [(13, 17, 1), (17, 22, 2)]
   \<and> (13, 17, 1) \<in> set [(13, 17, 1), (17, 22, 2 :: nat)]
   \<and> two_questions ! (13 - 1) = 0x0A
   \<and> (\<exists>w ds sep tl. drop 13 two_questions = w @ ds @ sep # tl \<and> ds \<noteq> []
        \<and> int_of_digits ds = Inr 1)
   \<and> two_questions = [] @ version_line @ [0x0A, 0x31, 0x3001, 0x7532, 0x0A, 0x0A, 0x32, 0x2E, 0x20, 0x4E59]
   \<and> \<not> (length ([] :: ustr) \<le> 13 \<and> 13 < length ([] :: ustr) + length version_line)"
proof -
  have mem: "(13, 17, 1) \<in> set [(13, 17, 1), (17, 22, 2 :: nat)]" by simp
  have tq: "two_questions = [] @ version_line @ [0x0A, 0x31, 0x3001, 0x7532, 0x0A, 0x0A, 0x32, 0x2E, 0x20, 0x4E59]"
    by (simp add: two_questions_def)
  from question_start_shape [OF two_questions_blocks mem] have
    a: "(13::nat) = 0 \<or> two_questions ! (13 - 1) = 0x0A" and
    b: "\<exists>w ds sep tl. drop 13 two_questions = w @ ds @ sep # tl \<and> (\<forall>c\<in>set w. is_space c)
          \<and> ds \<noteq> [] \<and> (\<forall>c\<in>set ds. is_digit c) \<and> int_of_digits ds = Inr 1
          \<and> (sep = 0x3001 \<or> sep = 0x2E \<and> (tl = [] \<or> \<not> is_digit (hd tl)))" and
    c: "\<forall>pre post. two_questions = pre @ version_line @ post \<longrightarrow>
          \<not> (length pre \<le> 13 \<and> 13 < length pre + length version_line)"
    by blast+
  from a have a': "two_questions ! (13 - 1) = 0x0A" by simp
  from b have b': "\<exists>w ds sep tl. drop 13 two_questions = w @ ds @ sep # tl \<and> ds \<noteq> []
        \<and> int_of_digits ds = Inr 1" by blast
  from c tq have c': "\<not> (length ([] :: ustr) \<le> 13 \<and> 13 < length ([] :: ustr) + length version_line)"
    by blast
  from two_questions_blocks mem a' b' tq c' show ?thesis by blast
qed

lemma two_questions_numerals:
  "map (\<lambda>m. length (group m 1)) (finditer QSTART two_questions) = [1, 1]"
  by code_simp

theorem segmentation_coverage_witness:
  "finditer QSTART two_questions \<noteq> []
   \<and> map (\<lambda>m. length (group m 1)) (finditer QSTART two_questions) = [1, 1]
   \<and> question_blocks two_questions = Inr [(13, 17, 1), (17, 22, 2)]
   \<and> map m_start (finditer QSTART two_questions) = [13, 17]
   \<and> {m_start (hd (finditer QSTART two_questions))..<length two_questions} = {13..<17} \<union> {17..<22}"
proof -
  have "\<forall>n\<in>set (map (\<lambda>m. length (group m 1)) (finditer QSTART two_questions)). n \<le> int_max_str_digits"
    unfolding two_questions_numerals by (simp add: int_max_str_digits_def)
  then have le: "\<forall>m\<in>set (finditer QSTART two_questions). length (group m 1) \<le> int_max_str_digits"
    by simp
  from segmentation_coverage [OF two_questions_matches le] have
    "map fst [(13, 17, 1), (17, 22, 2 :: nat)] = map m_start (finditer QSTART two_questions)"
    "(\<Union>b\<in>set [(13, 17, 1), (17, 22, 2 :: nat)]. {fst b..<fst (snd b)})
       = {m_start (hd (finditer QSTART two_questions))..<length two_questions}"
    by (simp_all add: two_questions_blocks)
  then have "map m_start (finditer QSTART two_questions) = [13, 17]"
    "{m_start (hd (finditer QSTART two_questions))..<length two_questions} = {13..<17} \<union> {17..<22}"
    by auto
  with two_questions_matches two_questions_numerals two_questions_blocks show ?thesis by blast
qed

section \<open>Stripping and splitting\<close>

lemma lstrip_id: "s = [] \<or> \<not> is_space (hd s) \<Longrightarrow> lstrip s = s"
  by (cases s) (auto simp: lstrip_def)

lemma rstrip_id: "s = [] \<or> \<not> is_space (last s) \<Longrightarrow> rstrip s = s"
  by (cases s rule: rev_cases) (auto simp: rstrip_def)

lemma strip_id: "s = [] \<or> \<not> is_space (hd s) \<and> \<not> is_space (last s) \<Longrightarrow> strip s = s"
  by (auto simp: strip_def lstrip_id rstrip_id)

lemma strip_all_space: "\<forall>c\<in>set s. is_space c \<Longrightarrow> strip s = []"
proof -
  assume "\<forall>c\<in>set s. is_space c"
  then have "lstrip s = []" by (simp add: lstrip_def)
  then show ?thesis by (simp add: strip_def rstrip_def)
qed

lemma rstrip_snoc_space: "is_space c \<Longrightarrow> rstrip (s @ [c]) = rstrip s"
  by (simp add: rstrip_def)

lemma lstrip_ends: "lstrip s = [] \<or> \<not> is_space (hd (lstrip s))"
  unfolding lstrip_def by (metis hd_dropWhile)

lemma rstrip_ends: "rstrip s = [] \<or> \<not> is_space (last (rstrip s))"
proof -
  have "dropWhile is_space (rev s) = [] \<or> \<not> is_space (hd (dropWhile is_space (rev s)))"
    by (metis hd_dropWhile)
  then show ?thesis unfolding rstrip_def by (auto simp: last_rev)
qed

lemma rstrip_prefix: "\<exists>t. s = rstrip s @ t \<and> (\<forall>c\<in>set t. is_space c)"
proof -
  have "rev s = takeWhile is_space (rev s) @ dropWhile is_space (rev s)" by simp
  then have "s = rev (dropWhile is_space (rev s)) @ rev (takeWhile is_space (rev s))"
    by (metis rev_append rev_rev_ident)
  moreover have "\<forall>c\<in>set (rev (takeWhile is_space (rev s))). is_space c"
    by (auto dest: set_takeWhileD)
  ultimately show ?thesis unfolding rstrip_def by blast
qed

lemma rstrip_hd: "rstrip s \<noteq> [] \<Longrightarrow> hd (rstrip s) = hd s"
  using rstrip_prefix [of s] by (metis hd_append2)

lemma strip_ends: "strip s = [] \<or> \<not> is_space (hd (strip s)) \<and> \<not> is_space (last (strip s))"
proof (cases "strip s = []")
  case False
  then have ne: "rstrip (lstrip s) \<noteq> []" by (simp add: strip_def)
  then have "lstrip s \<noteq> []" by (auto simp: rstrip_def)
  with lstrip_ends [of s] have "\<not> is_space (hd (lstrip s))" by simp
  with rstrip_hd [OF ne] have "\<not> is_space (hd (strip s))" by (simp add: strip_def)
  moreover from rstrip_ends [of "lstrip s"] ne have "\<not> is_space (last (strip s))"
    by (simp add: strip_def)
  ultimately show ?thesis by simp
qed simp

lemma set_lstrip: "set (lstrip s) \<subseteq> set s"
  unfolding lstrip_def by (auto dest: set_dropWhileD)

lemma set_rstrip: "set (rstrip s) \<subseteq> set s"
  unfolding rstrip_def by (auto dest: set_dropWhileD)

lemma set_strip: "set (strip s) \<subseteq> set s"
  unfolding strip_def using set_lstrip set_rstrip by blast

lemma split_on_not_Nil [simp]: "split_on sep s \<noteq> []"
  by (induction s) (auto split: list.splits)

lemma set_split_on: "l \<in> set (split_on sep s) \<Longrightarrow> set l \<subseteq> set s"
proof (induction s arbitrary: l)
  case Nil
  then show ?case by simp
next
  case (Cons c cs)
  show ?case
  proof (cases "c = sep")
    case True
    with Cons show ?thesis by auto
  next
    case False
    obtain x xs where sp: "split_on sep cs = x # xs" by (cases "split_on sep cs") auto
    with False Cons.prems have "l = c # x \<or> l \<in> set xs" by simp
    moreover from Cons.IH [of x] sp have "set x \<subseteq> set cs" by simp
    moreover from Cons.IH [of l] sp have "l \<in> set xs \<Longrightarrow> set l \<subseteq> set cs" by simp
    ultimately show ?thesis by auto
  qed
qed

lemma set_sub_build: "set (sub_build repl ms i tx) \<subseteq> set tx \<union> set repl"
proof (induction ms arbitrary: i)
  case Nil
  then show ?case by (auto dest: in_set_dropD)
next
  case (Cons m ms)
  have "set (py_slice tx i (m_start m)) \<subseteq> set tx"
    unfolding py_slice_def by (meson in_set_dropD in_set_takeD subsetI)
  with Cons [of "m_end m"] show ?case by auto
qed

lemma set_re_sub: "set (re_sub r repl count tx) \<subseteq> set tx \<union> set repl"
  unfolding re_sub_def by (rule set_sub_build)

lemma is_space_space [simp]: "is_space 0x20" "is_space 0x0A"
  by (simp_all add: is_space_def in_ranges_def ws_ranges_def)

lemma clean_lines_blank:
  assumes "\<forall>c\<in>set b. is_space c"
  shows "clean_lines b = []"
proof -
  have "strip (re_sub RE_WS_RUN [0x20] 0 l) = []" if "l \<in> set (split_on 0x0A b)" for l
  proof -
    from that assms have "\<forall>c\<in>set l. is_space c" using set_split_on by blast
    with set_re_sub [of RE_WS_RUN "[0x20]" 0 l]
    have "\<forall>c\<in>set (re_sub RE_WS_RUN [0x20] 0 l). is_space c" by auto
    then show ?thesis by (rule strip_all_space)
  qed
  then show ?thesis by (simp add: clean_lines_def filter_empty_conv)
qed

lemma clean_lines_ends:
  "l \<in> set (clean_lines b) \<Longrightarrow> l \<noteq> [] \<and> \<not> is_space (hd l) \<and> \<not> is_space (last l)"
  using strip_ends by (auto simp: clean_lines_def)

section \<open>Structural absence\<close>

text \<open>A document without a numbered question, and a block of white space only.\<close>

definition blank_block :: ustr where
  "blank_block = [0x20, 0x0A, 0x09, 0x3000]"

text \<open>
  C9. A text in which no question start is found yields the empty sequence of records,
  not an error. A block without a non-empty line after cleaning yields no record, and a
  block of white space only is such a block.
\<close>

theorem structural_absence:
  "(finditer QSTART (normalize_spaces plain_text) = [] \<longrightarrow>
      parse_questions plain_text source_name = Inr [])
   \<and> (clean_lines block_text = [] \<longrightarrow>
      parse_block_common block_text number section_name source_name = [])
   \<and> ((\<forall>c\<in>set block_text. is_space c) \<longrightarrow> clean_lines block_text = [])"
  by (simp add: parse_questions_def question_blocks_def parse_block_common_def clean_lines_blank)

lemma version_line_no_start: "finditer QSTART (normalize_spaces version_line) = []"
  by code_simp

lemma blank_block_space: "\<forall>c\<in>set blank_block. is_space c"
  by (simp add: blank_block_def is_space_def in_ranges_def ws_ranges_def)

theorem structural_absence_witness:
  "finditer QSTART (normalize_spaces version_line) = []
   \<and> parse_questions version_line [0x64] = Inr []
   \<and> clean_lines blank_block = []
   \<and> parse_block_common blank_block 1 sec_unknown [0x64] = []"
proof -
  from structural_absence [of version_line "[0x64]" blank_block 1 sec_unknown]
    version_line_no_start blank_block_space
  show ?thesis by blast
qed

section \<open>Reading comprehension: the composed stem\<close>


definition fanout_block :: ustr where
  "fanout_block =
     [0x31, 0x3001, 0x9605, 0x8BFB, 0x6750, 0x6599, 0x0A, 0x28, 0x32, 0x30, 0x2E, 0x30, 0x29, 0x0A,
      0xFF08, 0x31, 0xFF09, 0x3001, 0x95EE, 0x9898, 0x4E00, 0x0A, 0x7B54, 0x6848, 0xFF1A, 0x5BF9, 0x0A,
      0xFF08, 0x32, 0xFF09, 0x3001, 0x95EE, 0x9898, 0x4E8C, 0x0A, 0x7B54, 0x6848, 0xFF1A, 0x9519]"

text \<open>The passage of both blocks, and the two stems without the passage.\<close>

definition fanout_passage :: ustr where
  "fanout_passage = [0x9605, 0x8BFB, 0x6750, 0x6599, 0x0A, 0x28, 0x32, 0x30, 0x2E, 0x30, 0x29]"

definition fanout_question1 :: ustr where
  "fanout_question1 = [0x28, 0x31, 0x29, 0x20, 0x3001, 0x95EE, 0x9898, 0x4E00]"

definition fanout_question2 :: ustr where
  "fanout_question2 = [0x28, 0x32, 0x29, 0x20, 0x3001, 0x95EE, 0x9898, 0x4E8C]"

text \<open>The label as the specification quotes it: U+3010 U+9605 U+8BFB U+7406 U+89E3 U+6750 U+6599 U+3011.\<close>

definition spec_passage_label :: ustr where
  "spec_passage_label = [0x3010, 0x9605, 0x8BFB, 0x7406, 0x89E3, 0x6750, 0x6599, 0x3011]"

text \<open>
  A block whose sub-question has two option lines before its answer mark, and one with
  an option line after the answer mark; the option line A, U+3001, U+7EA2 U+8272.
\<close>

definition options_before :: ustr where
  "options_before =
     [0x31, 0x3001, 0x6750, 0x6599, 0x0A, 0xFF08, 0x31, 0xFF09, 0x3001, 0x95EE, 0x9898, 0x0A,
      0x41, 0x3001, 0x7EA2, 0x8272, 0x0A, 0x42, 0x3001, 0x84DD, 0x8272, 0x0A, 0x7B54, 0x6848, 0xFF1A, 0x41]"

definition options_after :: ustr where
  "options_after =
     [0x31, 0x3001, 0x6750, 0x6599, 0x0A, 0xFF08, 0x31, 0xFF09, 0x3001, 0x95EE, 0x9898, 0x0A,
      0x7B54, 0x6848, 0xFF1A, 0x41, 0x0A, 0x41, 0x3001, 0x7EA2, 0x8272]"

definition option_line :: ustr where
  "option_line = [0x41, 0x3001, 0x7EA2, 0x8272]"

lemma sublist_mid: "sublist l s \<Longrightarrow> sublist l (a @ s @ b)"
proof -
  assume "sublist l s"
  then obtain ps ss where "s = ps @ l @ ss" by (auto simp: sublist_def)
  then have "a @ s @ b = (a @ ps) @ l @ (ss @ b)" by simp
  then show ?thesis unfolding sublist_def by blast
qed

lemma sublist_join: "l \<in> set ls \<Longrightarrow> sublist l (join sep ls)"
proof (induction sep ls rule: join.induct)
  case (1 sep)
  then show ?case by simp
next
  case (2 sep x)
  then show ?case by simp
next
  case (3 sep x y ys)
  show ?case
  proof (cases "l = x")
    case True
    then show ?thesis by simp
  next
    case False
    with 3 have "sublist l (join sep (y # ys))" by simp
    from sublist_mid [OF this, of "x @ sep" "[]"] show ?thesis by simp
  qed
qed

lemma join_ends:
  assumes "ls \<noteq> []" and "\<forall>l\<in>set ls. l \<noteq> []"
  shows "join sep ls \<noteq> [] \<and> hd (join sep ls) = hd (hd ls) \<and> last (join sep ls) = last (last ls)"
  using assms
proof (induction sep ls rule: join.induct)
  case (1 sep)
  then show ?case by simp
next
  case (2 sep x)
  then show ?case by simp
next
  case (3 sep x y ys)
  then have "join sep (y # ys) \<noteq> []" "last (join sep (y # ys)) = last (last (y # ys))" "x \<noteq> []"
    by auto
  then show ?case by simp
qed

lemma sub_stem_lines:
  assumes "set ls \<subseteq> set (clean_lines b)"
  shows "sub_stem ls = join [0x20] (takeWhile (\<lambda>l. \<not> matches ANS_MARK l) ls)
     \<and> (sub_stem ls = [] \<or> \<not> is_space (hd (sub_stem ls)) \<and> \<not> is_space (last (sub_stem ls)))"
proof -
  let ?tw = "takeWhile (\<lambda>l. \<not> matches ANS_MARK l) ls"
  have ends: "l \<noteq> [] \<and> \<not> is_space (hd l) \<and> \<not> is_space (last l)" if "l \<in> set ?tw" for l
  proof -
    from that have "l \<in> set ls" by (rule set_takeWhileD [THEN conjunct1])
    with assms have "l \<in> set (clean_lines b)" by blast
    then show ?thesis by (rule clean_lines_ends)
  qed
  have "strip (join [0x20] ?tw) = join [0x20] ?tw"
  proof (cases "?tw = []")
    case True
    then show ?thesis by (simp add: strip_id)
  next
    case False
    have "\<forall>l\<in>set ?tw. l \<noteq> []" using ends by blast
    from join_ends [OF False this, of "[0x20]"]
    have j: "join [0x20] ?tw \<noteq> []" "hd (join [0x20] ?tw) = hd (hd ?tw)"
      "last (join [0x20] ?tw) = last (last ?tw)" by blast+
    from ends [OF hd_in_set [OF False]] have h: "\<not> is_space (hd (hd ?tw))" by blast
    from ends [OF last_in_set [OF False]] have l: "\<not> is_space (last (last ?tw))" by blast
    have "\<not> is_space (hd (join [0x20] ?tw)) \<and> \<not> is_space (last (join [0x20] ?tw))"
      unfolding j(2) j(3) using h l by blast
    then show ?thesis by (intro strip_id) blast
  qed
  then have eq: "sub_stem ls = join [0x20] ?tw" by (simp add: sub_stem_def)
  from strip_ends [of "join [0x20] ?tw"]
  have "sub_stem ls = [] \<or> \<not> is_space (hd (sub_stem ls)) \<and> \<not> is_space (last (sub_stem ls))"
    by (simp add: sub_stem_def)
  with eq show ?thesis by simp
qed

lemma label_chars: "\<not> is_space 0x3010" "\<not> is_space 0x28" "\<not> is_space 0x29"
  by (simp_all add: is_space_def in_ranges_def ws_ranges_def)

text \<open>The stem that \<open>full_stem\<close> composes, with the effect of the final \<^verbatim>\<open>strip\<close> written out.\<close>

definition composed_stem :: "ustr \<Rightarrow> ustr \<Rightarrow> ustr \<Rightarrow> ustr" where
  "composed_stem passage sub_no stem =
     (if passage = [] then [] else passage_label @ passage @ [0x0A, 0x0A])
     @ [0x28] @ sub_no @ [0x29] @ (if stem = [] then [] else 0x20 # stem)"

lemma full_stem_composed:
  assumes "stem = [] \<or> \<not> is_space (last stem)"
  shows "full_stem passage sub_no stem = composed_stem passage sub_no stem"
proof -
  define Y where
    "Y = (if passage = [] then [] else passage_label @ passage @ [0x0A, 0x0A]) @ [0x28] @ sub_no @ [0x29]"
  have hdY: "\<not> is_space (hd Y)"
    unfolding Y_def using label_chars by (cases "passage = []") (simp_all add: passage_label_def)
  have lastY: "\<not> is_space (last Y)" and neY: "Y \<noteq> []"
    unfolding Y_def using label_chars by simp_all
  have fs: "full_stem passage sub_no stem = strip (Y @ [0x20] @ stem)"
    unfolding Y_def by (simp add: full_stem_def)
  have cs: "composed_stem passage sub_no stem = Y @ (if stem = [] then [] else 0x20 # stem)"
    unfolding Y_def by (simp add: composed_stem_def)
  show ?thesis
  proof (cases "stem = []")
    case True
    have "hd (Y @ [0x20]) = hd Y" using neY by simp
    with hdY have "lstrip (Y @ [0x20]) = Y @ [0x20]" by (intro lstrip_id) simp
    then have "strip (Y @ [0x20]) = rstrip (Y @ [0x20])" by (simp only: strip_def)
    also have "\<dots> = rstrip Y" by (rule rstrip_snoc_space) simp
    also have "\<dots> = Y" using lastY by (intro rstrip_id) simp
    finally show ?thesis using True fs cs by simp
  next
    case False
    with assms have "\<not> is_space (last (Y @ [0x20] @ stem))" by simp
    moreover have "hd (Y @ [0x20] @ stem) = hd Y" using neY by simp
    ultimately have "strip (Y @ [0x20] @ stem) = Y @ [0x20] @ stem"
      using hdY by (intro strip_id) simp
    with False fs cs show ?thesis by simp
  qed
qed

lemma sub_lines_clean: "\<exists>b. sub_lines bwn me = clean_lines b"
  unfolding sub_lines_def Let_def by blast

lemma q_stem_sub_question:
  "q_stem (sub_question bwn passage n src me)
     = composed_stem passage (group (fst me) 1) (sub_stem (sub_lines bwn me))"
proof -
  obtain b where b: "sub_lines bwn me = clean_lines b" using sub_lines_clean by blast
  from sub_stem_lines [of "sub_lines bwn me" b] b
  have "sub_stem (sub_lines bwn me) = [] \<or> \<not> is_space (last (sub_stem (sub_lines bwn me)))"
    by auto
  from full_stem_composed [OF this] show ?thesis
    by (simp add: sub_question_def Let_def case_prod_beta)
qed

text \<open>
  C3, as the code has it. When the block has a sub-question marker, the stems of the
  records are, in order, the stems composed for the spans of the markers: the label
  U+3010 U+9605 U+8BFB U+6750 U+6599 U+3011, the passage and an empty line (all three
  only when the passage is not empty), then the ordinal in ASCII parentheses, and the
  sub-question's own stem after one space when it has one.
\<close>

theorem reading_stem_composition:
  assumes "finditer SUBQ_START (block_wo_num block_text n) \<noteq> []"
  shows "map q_stem (split_reading_block block_text n source_name) =
     map (\<lambda>me. composed_stem
                 (strip (py_slice (block_wo_num block_text n) 0
                    (m_start (finditer SUBQ_START (block_wo_num block_text n) ! 0))))
                 (group (fst me) 1)
                 (sub_stem (sub_lines (block_wo_num block_text n) me)))
         (spans (finditer SUBQ_START (block_wo_num block_text n))
                (length (block_wo_num block_text n)))"
  using assms by (simp add: split_reading_block_def Let_def q_stem_sub_question comp_def)

lemma fanout_block_subs: "finditer SUBQ_START (block_wo_num fanout_block 1) \<noteq> []"
  by code_simp

lemma fanout_block_composed:
  "map (\<lambda>me. composed_stem
                 (strip (py_slice (block_wo_num fanout_block 1) 0
                    (m_start (finditer SUBQ_START (block_wo_num fanout_block 1) ! 0))))
                 (group (fst me) 1)
                 (sub_stem (sub_lines (block_wo_num fanout_block 1) me)))
         (spans (finditer SUBQ_START (block_wo_num fanout_block 1))
                (length (block_wo_num fanout_block 1)))
   = [passage_label @ fanout_passage @ [0x0A, 0x0A] @ fanout_question1,
      passage_label @ fanout_passage @ [0x0A, 0x0A] @ fanout_question2]"
  by code_simp

theorem reading_stem_composition_witness:
  "finditer SUBQ_START (block_wo_num fanout_block 1) \<noteq> []
   \<and> map q_stem (split_reading_block fanout_block 1 [0x64])
       = [passage_label @ fanout_passage @ [0x0A, 0x0A] @ fanout_question1,
          passage_label @ fanout_passage @ [0x0A, 0x0A] @ fanout_question2]"
  using reading_stem_composition [OF fanout_block_subs, of "[0x64]"] fanout_block_subs
  by (simp only: fanout_block_composed simp_thms)

text \<open>
  The code does not put the label of the specification (U+3010 U+9605 U+8BFB U+7406
  U+89E3 U+6750 U+6599 U+3011) before the passage: no stem of the example starts with it.
\<close>

theorem reading_stem_label_counterexample:
  "strip (py_slice (block_wo_num fanout_block 1) 0
      (m_start (finditer SUBQ_START (block_wo_num fanout_block 1) ! 0))) = fanout_passage
   \<and> fanout_passage \<noteq> []
   \<and> length (split_reading_block fanout_block 1 [0x64]) = 2
   \<and> \<not> prefix spec_passage_label (q_stem (split_reading_block fanout_block 1 [0x64] ! 0))
   \<and> \<not> prefix spec_passage_label (q_stem (split_reading_block fanout_block 1 [0x64] ! 1))"
  by code_simp

section \<open>Reading comprehension: the records\<close>

lemma matches_D: "matches r l \<Longrightarrow> \<exists>e. e \<in> set (rmatch r (MState [] l []))"
  unfolding matches_def re_match_def using match_here_sound by fastforce

lemma option_line_first:
  assumes "matches OPT_SINGLE l \<or> matches OPT_INLINE l"
  shows "l \<noteq> [] \<and> 0x41 \<le> hd l \<and> hd l \<le> 0x48"
proof -
  from assms matches_D obtain e where
    "e \<in> set (rmatch OPT_SINGLE (MState [] l [])) \<or> e \<in> set (rmatch OPT_INLINE (MState [] l []))"
    by blast
  then obtain m where "m \<in> set (rmatch (Grp 1 (Chr (In [(0x41, 0x48)]))) (MState [] l []))"
    unfolding OPT_SINGLE_def OPT_INLINE_def seqs.simps rmatch_Seq_iff by auto
  then obtain m' where "m' \<in> set (rmatch (Chr (In [(0x41, 0x48)])) (MState [] l []))"
    unfolding rmatch_Grp_iff by blast
  then show ?thesis unfolding rmatch_Chr_iff by (auto simp: in_ranges_def)
qed

lemma rmatch_Lit_first:
  "e \<in> set (rmatch (Lit (c # cs)) st) \<Longrightarrow> rest st \<noteq> [] \<and> hd (rest st) = c"
proof (cases cs)
  case Nil
  assume "e \<in> set (rmatch (Lit (c # cs)) st)"
  with Nil have "e \<in> set (rmatch (Chr (In [(c, c)])) st)" unfolding Lit_def by simp
  then show ?thesis unfolding rmatch_Chr_iff by (auto simp: in_ranges_def)
next
  case (Cons d ds)
  assume "e \<in> set (rmatch (Lit (c # cs)) st)"
  with Cons obtain m where "m \<in> set (rmatch (Chr (In [(c, c)])) st)"
    unfolding Lit_def by auto
  then show ?thesis unfolding rmatch_Chr_iff by (auto simp: in_ranges_def)
qed

lemma answer_mark_first:
  assumes "matches ANS_MARK l"
  shows "l \<noteq> [] \<and> (hd l = 0x6B63 \<or> hd l = 0x53C2 \<or> hd l = 0x7B54)"
proof -
  from assms matches_D obtain e where "e \<in> set (rmatch ANS_MARK (MState [] l []))" by blast
  then obtain m where
    "m \<in> set (rmatch (Grp 1 (alts [Lit [0x6B63, 0x786E, 0x7B54, 0x6848],
        Lit [0x53C2, 0x8003, 0x7B54, 0x6848], Lit [0x7B54, 0x6848]])) (MState [] l []))"
    unfolding ANS_MARK_def seqs.simps rmatch_Seq_iff by auto
  then obtain m' where
    "m' \<in> set (rmatch (alts [Lit [0x6B63, 0x786E, 0x7B54, 0x6848],
        Lit [0x53C2, 0x8003, 0x7B54, 0x6848], Lit [0x7B54, 0x6848]]) (MState [] l []))"
    unfolding rmatch_Grp_iff by blast
  then have "m' \<in> set (rmatch (Lit [0x6B63, 0x786E, 0x7B54, 0x6848]) (MState [] l []))
      \<or> m' \<in> set (rmatch (Lit [0x53C2, 0x8003, 0x7B54, 0x6848]) (MState [] l []))
      \<or> m' \<in> set (rmatch (Lit [0x7B54, 0x6848]) (MState [] l []))"
    by simp
  then show ?thesis using rmatch_Lit_first by fastforce
qed

lemma option_line_no_answer_mark:
  "matches OPT_SINGLE l \<or> matches OPT_INLINE l \<Longrightarrow> \<not> matches ANS_MARK l"
proof
  assume o: "matches OPT_SINGLE l \<or> matches OPT_INLINE l" and a: "matches ANS_MARK l"
  from option_line_first [OF o] have "hd l \<le> 0x48" by simp
  with answer_mark_first [OF a] show False by auto
qed

lemma stem_holds_lines:
  assumes "l \<in> set (takeWhile (\<lambda>l. \<not> matches ANS_MARK l) (sub_lines bwn me))"
  shows "sublist l (q_stem (sub_question bwn passage n src me))"
proof -
  define st where "st = sub_stem (sub_lines bwn me)"
  define A where
    "A = (if passage = [] then [] else passage_label @ passage @ [0x0A, 0x0A])
         @ [0x28] @ group (fst me) 1 @ [0x29]"
  obtain b where b: "sub_lines bwn me = clean_lines b" using sub_lines_clean by blast
  from b have sub: "set (sub_lines bwn me) \<subseteq> set (clean_lines b)" by simp
  from sub_stem_lines [OF sub] have
    st: "st = join [0x20] (takeWhile (\<lambda>l. \<not> matches ANS_MARK l) (sub_lines bwn me))"
    unfolding st_def by blast
  from assms have "l \<in> set (sub_lines bwn me)" by (rule set_takeWhileD [THEN conjunct1])
  then have "l \<in> set (clean_lines b)" by (simp only: b)
  from clean_lines_ends [OF this] have lne: "l \<noteq> []" by blast
  from sublist_join [OF assms, of "[0x20]"] have sl: "sublist l st" by (simp only: st)
  have ne: "st \<noteq> []"
  proof
    assume "st = []"
    with sl have "l = []" by simp
    with lne show False by simp
  qed
  from sublist_mid [OF sl, of "A @ [0x20]" "[]"] have "sublist l (A @ 0x20 # st)" by simp
  moreover from ne have "composed_stem passage (group (fst me) 1) st = A @ 0x20 # st"
    by (simp add: composed_stem_def A_def)
  ultimately have "sublist l (composed_stem passage (group (fst me) 1) st)" by (simp only:)
  then show ?thesis unfolding st_def by (simp only: q_stem_sub_question)
qed

lemma sub_question_fields:
  "q_options (sub_question bwn passage n src me) = []
   \<and> q_score (sub_question bwn passage n src me) = None
   \<and> q_qtype (sub_question bwn passage n src me) = ''text''"
  by (simp add: sub_question_def Let_def case_prod_beta)

lemma list_all2_map_same: "(\<And>x. x \<in> set xs \<Longrightarrow> P (f x) x) \<Longrightarrow> list_all2 P (map f xs) xs"
  by (induction xs) auto

lemma takeWhile_filter_map:
  assumes "\<And>y. \<not> Q y \<Longrightarrow> P y"
  shows "takeWhile P (filter Q (map f xs)) = filter Q (map f (takeWhile (\<lambda>x. P (f x)) xs))"
  using assms by (induction xs) auto

lemma no_answer_mark_empty: "\<not> matches ANS_MARK []"
  using answer_mark_first [of "[]"] by blast

text \<open>
  The lines of a sub-question that make its stem, read from its text: the lines before
  the first one whose cleaned form is an answer mark, cleaned, without the empty ones.
\<close>

lemma stem_lines_of_text:
  "takeWhile (\<lambda>l. \<not> matches ANS_MARK l) (clean_lines tx)
     = filter (\<lambda>l. l \<noteq> [])
         (map (\<lambda>l. strip (re_sub RE_WS_RUN [0x20] 0 l))
            (takeWhile (\<lambda>l. \<not> matches ANS_MARK (strip (re_sub RE_WS_RUN [0x20] 0 l)))
               (split_on 0x0A tx)))"
  unfolding clean_lines_def
  by (rule takeWhile_filter_map) (simp add: no_answer_mark_empty)

lemma sub_question_stem:
  "q_stem (sub_question bwn passage n src me)
     = composed_stem passage (group (fst me) 1)
         (join [0x20] (takeWhile (\<lambda>l. \<not> matches ANS_MARK l) (sub_lines bwn me)))"
proof -
  obtain b where b: "sub_lines bwn me = clean_lines b" using sub_lines_clean by blast
  then have "set (sub_lines bwn me) \<subseteq> set (clean_lines b)" by simp
  from sub_stem_lines [OF this] show ?thesis by (simp only: q_stem_sub_question)
qed

lemma sub_question_absorbs:
  "let sub_text = strip (re_sub RE_SUB_MARK [] 0 (strip (py_slice bwn (m_start (fst me)) (snd me))));
       clean = (\<lambda>l. strip (re_sub RE_WS_RUN [0x20] 0 l));
       before_answer = takeWhile (\<lambda>l. \<not> matches ANS_MARK (clean l)) (split_on 0x0A sub_text);
       stem_lines = filter (\<lambda>l. l \<noteq> []) (map clean before_answer)
   in q_stem (sub_question bwn passage n src me)
        = composed_stem passage (group (fst me) 1) (join [0x20] stem_lines)
      \<and> (\<forall>l\<in>set stem_lines. sublist l (q_stem (sub_question bwn passage n src me)))
      \<and> (\<forall>r\<in>set before_answer.
            matches OPT_SINGLE (clean r) \<or> matches OPT_INLINE (clean r) \<longrightarrow>
              clean r \<in> set stem_lines)"
proof -
  define sub_text where
    "sub_text = strip (re_sub RE_SUB_MARK [] 0 (strip (py_slice bwn (m_start (fst me)) (snd me))))"
  define clean where "clean = (\<lambda>l. strip (re_sub RE_WS_RUN [0x20] 0 l))"
  define before_answer where
    "before_answer = takeWhile (\<lambda>l. \<not> matches ANS_MARK (clean l)) (split_on 0x0A sub_text)"
  define stem_lines where "stem_lines = filter (\<lambda>l. l \<noteq> []) (map clean before_answer)"
  have sl: "sub_lines bwn me = clean_lines sub_text"
    unfolding sub_lines_def sub_text_def by (simp only: Let_def)
  have tw: "takeWhile (\<lambda>l. \<not> matches ANS_MARK l) (sub_lines bwn me) = stem_lines"
    unfolding sl stem_lines_of_text stem_lines_def before_answer_def clean_def ..
  have a: "q_stem (sub_question bwn passage n src me)
      = composed_stem passage (group (fst me) 1) (join [0x20] stem_lines)"
    by (simp only: sub_question_stem tw)
  have b: "\<forall>l\<in>set stem_lines. sublist l (q_stem (sub_question bwn passage n src me))"
    using stem_holds_lines [of _ bwn me passage n src] unfolding tw by blast
  have c: "\<forall>r\<in>set before_answer.
      matches OPT_SINGLE (clean r) \<or> matches OPT_INLINE (clean r) \<longrightarrow> clean r \<in> set stem_lines"
  proof (intro ballI impI)
    fix r
    assume r: "r \<in> set before_answer"
      and o: "matches OPT_SINGLE (clean r) \<or> matches OPT_INLINE (clean r)"
    from option_line_first [OF o] have "clean r \<noteq> []" by blast
    with r show "clean r \<in> set stem_lines" unfolding stem_lines_def by simp
  qed
  from a b c show ?thesis
    unfolding Let_def sub_text_def [symmetric] clean_def [symmetric]
      before_answer_def [symmetric] stem_lines_def [symmetric] by blast
qed

text \<open>
  C10, as the code has it. When the block has a sub-question marker, every record has no
  options, no score and the type \<open>text\<close>. The stem of a record is read from the text of
  its sub-question (the span of the marker in the block without its number, stripped,
  the marker removed): the lines before the first one whose cleaned form is an answer
  mark are cleaned, the empty ones dropped, and the rest joined by single spaces after
  the passage and the ordinal. Each of these lines is part of the stem; an option line
  before the first answer mark is one of them, and an option line is never an answer
  mark.
\<close>

theorem reading_records_plain_text:
  assumes "finditer SUBQ_START (block_wo_num block_text n) \<noteq> []"
  shows "list_all (\<lambda>q. q_options q = [] \<and> q_score q = None \<and> q_qtype q = ''text'')
           (split_reading_block block_text n source_name)
     \<and> list_all2
         (\<lambda>q me.
            let bwn = block_wo_num block_text n;
                passage = strip (py_slice bwn 0 (m_start (finditer SUBQ_START bwn ! 0)));
                sub_text = strip (re_sub RE_SUB_MARK [] 0 (strip (py_slice bwn (m_start (fst me)) (snd me))));
                clean = (\<lambda>l. strip (re_sub RE_WS_RUN [0x20] 0 l));
                before_answer = takeWhile (\<lambda>l. \<not> matches ANS_MARK (clean l)) (split_on 0x0A sub_text);
                stem_lines = filter (\<lambda>l. l \<noteq> []) (map clean before_answer)
            in q_stem q = composed_stem passage (group (fst me) 1) (join [0x20] stem_lines)
               \<and> (\<forall>l\<in>set stem_lines. sublist l (q_stem q))
               \<and> (\<forall>r\<in>set before_answer.
                     matches OPT_SINGLE (clean r) \<or> matches OPT_INLINE (clean r) \<longrightarrow>
                       clean r \<in> set stem_lines))
         (split_reading_block block_text n source_name)
         (spans (finditer SUBQ_START (block_wo_num block_text n))
                (length (block_wo_num block_text n)))
     \<and> (\<forall>l. matches OPT_SINGLE l \<or> matches OPT_INLINE l \<longrightarrow> \<not> matches ANS_MARK l)"
proof -
  define bwn where "bwn = block_wo_num block_text n"
  define subs where "subs = finditer SUBQ_START bwn"
  define passage where "passage = strip (py_slice bwn 0 (m_start (subs ! 0)))"
  from assms have eq: "split_reading_block block_text n source_name
      = map (sub_question bwn passage n source_name) (spans subs (length bwn))"
    unfolding bwn_def subs_def passage_def by (simp add: split_reading_block_def Let_def)
  have a: "list_all (\<lambda>q. q_options q = [] \<and> q_score q = None \<and> q_qtype q = ''text'')
      (map (sub_question bwn passage n source_name) (spans subs (length bwn)))"
    unfolding list_all_iff using sub_question_fields by auto
  have b: "list_all2
         (\<lambda>q me.
            let sub_text = strip (re_sub RE_SUB_MARK [] 0 (strip (py_slice bwn (m_start (fst me)) (snd me))));
                clean = (\<lambda>l. strip (re_sub RE_WS_RUN [0x20] 0 l));
                before_answer = takeWhile (\<lambda>l. \<not> matches ANS_MARK (clean l)) (split_on 0x0A sub_text);
                stem_lines = filter (\<lambda>l. l \<noteq> []) (map clean before_answer)
            in q_stem q = composed_stem passage (group (fst me) 1) (join [0x20] stem_lines)
               \<and> (\<forall>l\<in>set stem_lines. sublist l (q_stem q))
               \<and> (\<forall>r\<in>set before_answer.
                     matches OPT_SINGLE (clean r) \<or> matches OPT_INLINE (clean r) \<longrightarrow>
                       clean r \<in> set stem_lines))
         (map (sub_question bwn passage n source_name) (spans subs (length bwn)))
         (spans subs (length bwn))"
    by (rule list_all2_map_same) (rule sub_question_absorbs)
  from a b option_line_no_answer_mark show ?thesis
    unfolding eq Let_def bwn_def [symmetric] subs_def [symmetric] passage_def [symmetric]
    by blast
qed

lemma options_before_subs: "finditer SUBQ_START (block_wo_num options_before 1) \<noteq> []"
  by code_simp

lemma options_before_record:
  "split_reading_block options_before 1 [0x64] =
     [\<lparr>q_source = [0x64], q_number_in_source = 1, q_section = sec_reading, q_qtype = ''text'',
       q_stem = passage_label @ [0x6750, 0x6599, 0x0A, 0x0A, 0x28, 0x31, 0x29, 0x20, 0x3001, 0x95EE, 0x9898,
                  0x20, 0x41, 0x3001, 0x7EA2, 0x8272, 0x20, 0x42, 0x3001, 0x84DD, 0x8272],
       q_options = [], q_answer = [0x41], q_analysis = [], q_score = None\<rparr>]"
  by code_simp

lemma option_line_matches: "matches OPT_INLINE option_line"
  by code_simp

lemma options_before_spans:
  "spans (finditer SUBQ_START (block_wo_num options_before 1)) (length (block_wo_num options_before 1))
     = [(ReMatch 3 7 [(1, [0x31])], 24)]"
  by code_simp

lemma options_before_stem_lines:
  "filter (\<lambda>l. l \<noteq> [])
     (map (\<lambda>l. strip (re_sub RE_WS_RUN [0x20] 0 l))
        (takeWhile (\<lambda>l. \<not> matches ANS_MARK (strip (re_sub RE_WS_RUN [0x20] 0 l)))
           (split_on 0x0A
              (strip (re_sub RE_SUB_MARK [] 0 (strip (py_slice (block_wo_num options_before 1) 3 24)))))))
     = [[0x3001, 0x95EE, 0x9898], option_line, [0x42, 0x3001, 0x84DD, 0x8272]]"
  by code_simp

theorem reading_records_plain_text_witness:
  "finditer SUBQ_START (block_wo_num options_before 1) \<noteq> []
   \<and> list_all (\<lambda>q. q_options q = [] \<and> q_score q = None \<and> q_qtype q = ''text'')
        (split_reading_block options_before 1 [0x64])
   \<and> length (split_reading_block options_before 1 [0x64]) = 1
   \<and> matches OPT_INLINE option_line
   \<and> \<not> matches ANS_MARK option_line
   \<and> sublist option_line (q_stem (split_reading_block options_before 1 [0x64] ! 0))"
proof -
  let ?rec = "split_reading_block options_before 1 [0x64] ! 0"
  from reading_records_plain_text [OF options_before_subs, of "[0x64]"] have
    a: "list_all (\<lambda>q. q_options q = [] \<and> q_score q = None \<and> q_qtype q = ''text'')
        (split_reading_block options_before 1 [0x64])" and
    b: "list_all2
         (\<lambda>q me.
            let bwn = block_wo_num options_before 1;
                passage = strip (py_slice bwn 0 (m_start (finditer SUBQ_START bwn ! 0)));
                sub_text = strip (re_sub RE_SUB_MARK [] 0 (strip (py_slice bwn (m_start (fst me)) (snd me))));
                clean = (\<lambda>l. strip (re_sub RE_WS_RUN [0x20] 0 l));
                before_answer = takeWhile (\<lambda>l. \<not> matches ANS_MARK (clean l)) (split_on 0x0A sub_text);
                stem_lines = filter (\<lambda>l. l \<noteq> []) (map clean before_answer)
            in q_stem q = composed_stem passage (group (fst me) 1) (join [0x20] stem_lines)
               \<and> (\<forall>l\<in>set stem_lines. sublist l (q_stem q))
               \<and> (\<forall>r\<in>set before_answer.
                     matches OPT_SINGLE (clean r) \<or> matches OPT_INLINE (clean r) \<longrightarrow>
                       clean r \<in> set stem_lines))
         (split_reading_block options_before 1 [0x64])
         (spans (finditer SUBQ_START (block_wo_num options_before 1))
                (length (block_wo_num options_before 1)))" and
    c: "\<forall>l. matches OPT_SINGLE l \<or> matches OPT_INLINE l \<longrightarrow> \<not> matches ANS_MARK l"
    by blast+
  from c option_line_matches have n: "\<not> matches ANS_MARK option_line" by blast
  have len: "length (split_reading_block options_before 1 [0x64]) = 1"
    by (simp only: options_before_record list.size)
  then obtain q where q: "split_reading_block options_before 1 [0x64] = [q]"
    by (cases "split_reading_block options_before 1 [0x64]") auto
  note b' = b [unfolded q options_before_spans Let_def list_all2_Cons list_all2_Nil fst_conv
      snd_conv rematch.sel options_before_stem_lines simp_thms]
  from b' [THEN conjunct2, THEN conjunct1]
  have "sublist option_line (q_stem q)" by simp
  then have s: "sublist option_line (q_stem ?rec)" by (simp only: q nth_Cons_0)
  from options_before_subs a len option_line_matches n s show ?thesis by blast
qed

text \<open>
  An option line that follows the answer mark of its sub-question is a line of the
  sub-question, but neither an option of the record nor part of its stem.
\<close>

theorem reading_option_after_answer_counterexample:
  "finditer SUBQ_START (block_wo_num options_after 1) \<noteq> []
   \<and> sub_lines (block_wo_num options_after 1)
        (spans (finditer SUBQ_START (block_wo_num options_after 1))
               (length (block_wo_num options_after 1)) ! 0)
       = [[0x3001, 0x95EE, 0x9898], [0x7B54, 0x6848, 0xFF1A, 0x41], option_line]
   \<and> matches OPT_INLINE option_line
   \<and> split_reading_block options_after 1 [0x64] =
       [\<lparr>q_source = [0x64], q_number_in_source = 1, q_section = sec_reading, q_qtype = ''text'',
         q_stem = passage_label @ [0x6750, 0x6599, 0x0A, 0x0A, 0x28, 0x31, 0x29, 0x20, 0x3001, 0x95EE, 0x9898],
         q_options = [], q_answer = [0x41], q_analysis = [], q_score = None\<rparr>]
   \<and> \<not> sublist option_line (q_stem (split_reading_block options_after 1 [0x64] ! 0))"
  by code_simp

section \<open>Reading comprehension: the fan-out example\<close>




end
